theory Spec2Isabelle
  imports Main "HOL-Library.Word" "HOL-Library.Multiset"
begin

unbundle bit_operations_syntax

section \<open>Tables\<close>

text \<open>
  The program merges batches of match facts into one consolidated table with polars.
  A polars \<open>DataFrame\<close> is an ordered list of named, typed columns of equal height.
  It is modelled row-wise: the schema is the list of (name, dtype) pairs in column order and
  every row lists its cells in that order. A cell is \<open>None\<close> for polars' null.

  The dtypes are the three of the canonical schema (\<open>pl.Int64\<close>, \<open>pl.Float64\<close>,
  \<open>pl.String\<close>), the Null dtype of \<open>pl.lit(None)\<close> and the Int32 of the integer
  literal \<open>pl.lit(0)\<close>. A Float64 value is its IEEE-754 binary64 bit pattern.
\<close>

datatype dtype = Int32 | Int64 | Float64 | String | Null

datatype val = I32V "32 word" | IntV "64 word" | FloatV "64 word" | StrV string

type_synonym cell = "val option"

record df =
  schema :: "(string \<times> dtype) list"
  rows :: "cell list list"

text \<open>\<open>df.columns\<close> and \<open>df.schema.get(c)\<close>.\<close>

definition columns :: "df \<Rightarrow> string list" where
  "columns d = map fst (schema d)"

definition get_dtype :: "df \<Rightarrow> string \<Rightarrow> dtype option" where
  "get_dtype d c = map_of (schema d) c"

text \<open>The cell of row \<open>r\<close> under the column named \<open>c\<close>, for a row laid out as \<open>names\<close>.\<close>

definition cell_at :: "string list \<Rightarrow> cell list \<Rightarrow> string \<Rightarrow> cell" where
  "cell_at names r c = (case map_of (zip names r) c of Some v \<Rightarrow> v | None \<Rightarrow> None)"

fun has_dtype :: "dtype \<Rightarrow> val \<Rightarrow> bool" where
  "has_dtype Int32 (I32V _) = True"
| "has_dtype Int64 (IntV _) = True"
| "has_dtype Float64 (FloatV _) = True"
| "has_dtype String (StrV _) = True"
| "has_dtype _ _ = False"

text \<open>
  What polars guarantees of every DataFrame: column names are unique, a frame without
  columns has no rows, every row has one cell per column, and a non-null cell holds a value
  of its column's dtype.
\<close>

definition wf_df :: "df \<Rightarrow> bool" where
  "wf_df d \<longleftrightarrow>
     distinct (columns d) \<and> (schema d = [] \<longrightarrow> rows d = []) \<and>
     list_all (\<lambda>r. length r = length (schema d) \<and>
        list_all (\<lambda>(t, x). case x of None \<Rightarrow> True | Some v \<Rightarrow> has_dtype t v)
          (zip (map snd (schema d)) r)) (rows d)"

section \<open>Values\<close>

subsection \<open>Float64 arithmetic\<close>

text \<open>
  The additive merge adds Float64 columns, and the order of two merges decides the order
  of the additions, so the sum is modelled bit for bit: IEEE-754 binary64 addition, round
  to nearest, ties to even. A finite double is \<open>\<plusminus> mant * 2 ^ (ex - 1075)\<close> with
  \<open>1 \<le> ex\<close>; a NaN result is the canonical quiet NaN.
\<close>

definition f64_exp :: "64 word \<Rightarrow> int" where
  "f64_exp w = uint (drop_bit 52 w AND 0x7FF)"

definition f64_frac :: "64 word \<Rightarrow> int" where
  "f64_frac w = uint (w AND 0xFFFFFFFFFFFFF)"

definition f64_neg :: "64 word \<Rightarrow> bool" where
  "f64_neg w = bit w 63"

definition f64_is_nan :: "64 word \<Rightarrow> bool" where
  "f64_is_nan w \<longleftrightarrow> f64_exp w = 2047 \<and> f64_frac w \<noteq> 0"

definition f64_is_inf :: "64 word \<Rightarrow> bool" where
  "f64_is_inf w \<longleftrightarrow> f64_exp w = 2047 \<and> f64_frac w = 0"

definition f64_mant :: "64 word \<Rightarrow> int" where
  "f64_mant w = (if f64_exp w = 0 then f64_frac w else 4503599627370496 + f64_frac w)"

definition f64_ex :: "64 word \<Rightarrow> int" where
  "f64_ex w = (if f64_exp w = 0 then 1 else f64_exp w)"

definition f64_qnan :: "64 word" where
  "f64_qnan = 0x7FF8000000000000"

definition f64_sign_bit :: "bool \<Rightarrow> 64 word" where
  "f64_sign_bit s = (if s then 0x8000000000000000 else 0)"

text \<open>The number of binary digits of \<open>n\<close>, and \<open>2 ^ k\<close>, on integers.\<close>

function bitlen :: "int \<Rightarrow> int" where
  "bitlen n = (if n \<le> 0 then 0 else 1 + bitlen (n div 2))"
  by pat_completeness auto
termination
  by (relation "measure nat") auto

declare bitlen.simps [simp del]

function pow2 :: "int \<Rightarrow> int" where
  "pow2 k = (if k \<le> 0 then 1 else 2 * pow2 (k - 1))"
  by pat_completeness auto
termination
  by (relation "measure nat") auto

declare pow2.simps [simp del]

text \<open>The double with sign \<open>s\<close> and value \<open>m * 2 ^ (e - 1075)\<close>, for \<open>m < 2 ^ 53\<close>.\<close>

definition f64_pack :: "bool \<Rightarrow> int \<Rightarrow> int \<Rightarrow> 64 word" where
  "f64_pack s m e =
     f64_sign_bit s OR push_bit 52 (word_of_int (if m < 4503599627370496 then 0 else e))
       OR word_of_int (m mod 4503599627370496)"

text \<open>Rounding \<open>M * 2 ^ (e - 1075)\<close>, \<open>0 < M\<close>, to the nearest double, ties to even.\<close>

definition f64_round :: "bool \<Rightarrow> int \<Rightarrow> int \<Rightarrow> 64 word" where
  "f64_round s M e =
    (let n = bitlen M in
     if n \<le> 53 then
       (let sh = min (53 - n) (e - 1) in f64_pack s (M * pow2 sh) (e - sh))
     else
       (let k = n - 53;
            q = M div pow2 k;
            r = M mod pow2 k;
            half = pow2 (k - 1);
            q1 = (if half < r \<or> (r = half \<and> odd q) then q + 1 else q);
            q2 = (if q1 = 9007199254740992 then 4503599627370496 else q1);
            e2 = (if q1 = 9007199254740992 then e + k + 1 else e + k)
        in if 2047 \<le> e2 then f64_sign_bit s OR 0x7FF0000000000000
           else f64_pack s q2 e2))"

definition f64_add :: "64 word \<Rightarrow> 64 word \<Rightarrow> 64 word" where
  "f64_add a b =
    (if f64_is_nan a \<or> f64_is_nan b then f64_qnan
     else if f64_is_inf a then
       (if f64_is_inf b \<and> f64_neg a \<noteq> f64_neg b then f64_qnan else a)
     else if f64_is_inf b then b
     else if f64_mant a = 0 then
       (if f64_mant b = 0 then f64_sign_bit (f64_neg a \<and> f64_neg b) else b)
     else if f64_mant b = 0 then a
     else
       (let e = min (f64_ex a) (f64_ex b);
            ia = (if f64_neg a then - 1 else 1) * (f64_mant a * pow2 (f64_ex a - e));
            ib = (if f64_neg b then - 1 else 1) * (f64_mant b * pow2 (f64_ex b - e));
            t = ia + ib
        in if t = 0 then 0
           else f64_round (t < 0) \<bar>t\<bar> e))"

text \<open>
  The order polars sorts Float64 by: the numeric order, NaN above every number. The key is
  monotone in the value of the double.
\<close>

definition f64_key :: "64 word \<Rightarrow> int" where
  "f64_key w =
    (if f64_is_nan w then 9223372036854775808
     else if f64_neg w then - uint (w AND 0x7FFFFFFFFFFFFFFF)
     else uint w)"

subsection \<open>Comparing and adding values\<close>

text \<open>Strings are ordered by their bytes, shorter prefix first.\<close>

fun str_less :: "string \<Rightarrow> string \<Rightarrow> bool" where
  "str_less [] [] = False"
| "str_less [] (y # ys) = True"
| "str_less (x # xs) [] = False"
| "str_less (x # xs) (y # ys) =
     ((of_char x :: nat) < of_char y \<or> (x = y \<and> str_less xs ys))"

fun val_less :: "val \<Rightarrow> val \<Rightarrow> bool" where
  "val_less (I32V a) (I32V b) = (sint a < sint b)"
| "val_less (IntV a) (IntV b) = (sint a < sint b)"
| "val_less (FloatV a) (FloatV b) = (f64_key a < f64_key b)"
| "val_less (StrV a) (StrV b) = str_less a b"
| "val_less _ _ = False"

text \<open>
  \<open>+\<close> on two columns of one dtype: integers wrap, floats round, strings concatenate.
  Operands of different dtypes do not occur, both columns having been brought to one dtype.
\<close>

fun add_val :: "val \<Rightarrow> val \<Rightarrow> val" where
  "add_val (I32V a) (I32V b) = I32V (a + b)"
| "add_val (IntV a) (IntV b) = IntV (a + b)"
| "add_val (FloatV a) (FloatV b) = FloatV (f64_add a b)"
| "add_val (StrV a) (StrV b) = StrV (a @ b)"
| "add_val a _ = a"

text \<open>
  Joins and group-by compare keys with polars' total equality: all NaNs are one key, and
  so are the two zeros. \<open>key_canon\<close> picks the representative.
\<close>

fun key_canon :: "cell \<Rightarrow> cell" where
  "key_canon (Some (FloatV w)) =
     Some (FloatV (if f64_is_nan w then f64_qnan
                   else if w = 0x8000000000000000 then 0 else w))"
| "key_canon x = x"

text \<open>\<open>pl.coalesce\<close>: the first operand that is not null.\<close>

fun coalesce :: "cell list \<Rightarrow> cell" where
  "coalesce [] = None"
| "coalesce (None # xs) = coalesce xs"
| "coalesce (Some v # xs) = Some v"

section \<open>Errors\<close>

text \<open>
  Every \<open>raise\<close> of the source is a constructor: the three of \<open>ordenar_y_validar\<close>
  (\<open>ValueError "Faltan columnas requeridas"\<close>, \<open>TypeError "Tipos no coinciden"\<close>,
  \<open>ValueError "Columnas no esperadas"\<close>), the missing key of the upserts
  (\<open>ValueError "'delta' debe tener la clave"\<close>, \<open>ValueError "Falta la PK"\<close>), the missing
  timestamp column of \<open>upsert_odds\<close>, and the exceptions polars itself raises.
\<close>

datatype polars_error =
    ColumnNotFoundError string
  | DuplicateError string
  | InvalidOperationError string
  | SchemaError string

datatype error =
    MissingColumns "string list"
  | TypeMismatch "string list"
  | UnexpectedColumns "string list"
  | MissingKey string
  | MissingTimestamp string
  | PolarsError polars_error

section \<open>The canonical schema\<close>

definition head_to_head_schema :: "(string \<times> dtype) list" where
  "head_to_head_schema =
    [(''MatchId'', Int64), (''BetType'', Int64), (''HomeId'', Int64), (''AwayId'', Int64),
     (''HtHomeScore'', Int64), (''HtAwayScore'', Int64), (''FinalHomeScore'', Int64),
     (''FinalAwayScore'', Int64), (''EventDate'', String), (''KickOffTime'', String),
     (''LeagueId'', Int64), (''SportId'', Int64), (''FirstOddsId'', Int64),
     (''LastOddsId'', Int64), (''FirstOdds1'', Float64), (''LastOdds1'', Float64),
     (''FirstOdds2'', Float64), (''LastOdds2'', Float64), (''FirstCom1'', Float64),
     (''FirstCom2'', Float64), (''FirstComx'', Float64), (''LastCom1'', Float64),
     (''LastCom2'', Float64), (''LastComx'', Float64), (''Winlost_SGD'', Float64),
     (''TurnOver_SGD'', Float64), (''ModifiedOn'', String)]"

section \<open>The polars operations the merges use\<close>

text \<open>
  The semantics are those of polars from 0.20 on, the versions that know the
  \<open>coalesce\<close> argument of \<open>join\<close> the source passes. The row order of a join and of a
  group-by is not fixed by polars; the model fixes one, and no theorem below depends on it
  except where it says so.
\<close>

subsection \<open>Adding null columns, casting\<close>

text \<open>
  \<open>df.with_columns([pl.lit(None, dtype=t).alias(c), ...])\<close> for new names. The literal
  is broadcast to the height of the frame; a frame without columns gets one row.
\<close>

definition with_null_columns :: "df \<Rightarrow> (string \<times> dtype) list \<Rightarrow> df" where
  "with_null_columns d cs =
     \<lparr> schema = schema d @ cs,
       rows = (if schema d = [] then [replicate (length cs) None]
               else map (\<lambda>r. r @ replicate (length cs) None) (rows d)) \<rparr>"

text \<open>
  \<open>pl.col(c).cast(tgt)\<close> is strict: a null stays null, and a value that cannot be
  converted raises. How polars converts one value to another dtype is not part of this
  repository; it is the parameter \<open>cv\<close> of everything that casts, \<open>None\<close> where the
  conversion fails.
\<close>

definition cast_cell :: "(dtype \<Rightarrow> val \<Rightarrow> val option) \<Rightarrow> dtype \<Rightarrow> cell \<Rightarrow> cell option" where
  "cast_cell cv t x = (case x of None \<Rightarrow> Some None | Some v \<Rightarrow> map_option Some (cv t v))"

text \<open>\<open>df.with_columns([pl.col(c).cast(t) for (c, t) in casts])\<close>.\<close>

definition cast_columns ::
  "(dtype \<Rightarrow> val \<Rightarrow> val option) \<Rightarrow> df \<Rightarrow> (string \<times> dtype) list \<Rightarrow> error + df" where
  "cast_columns cv d casts =
    (let cast_row = (\<lambda>r. map (\<lambda>c. case map_of casts c of
                                      None \<Rightarrow> Some (cell_at (columns d) r c)
                                    | Some t \<Rightarrow> cast_cell cv t (cell_at (columns d) r c))
                              (columns d))
     in if list_ex (\<lambda>r. None \<in> set (cast_row r)) (rows d)
        then Inl (PolarsError (InvalidOperationError ''cast''))
        else Inr \<lparr> schema = map (\<lambda>(c, t). (c, case map_of casts c of None \<Rightarrow> t | Some t' \<Rightarrow> t'))
                               (schema d),
                   rows = map (\<lambda>r. map the (cast_row r)) (rows d) \<rparr>)"

subsection \<open>Outer join\<close>

text \<open>
  Two keys match when neither is null and they are equal; a null key matches nothing
  (\<open>join_nulls\<close> is off by default).
\<close>

definition join_matches :: "cell \<Rightarrow> cell \<Rightarrow> bool" where
  "join_matches kl kr \<longleftrightarrow> kl \<noteq> None \<and> key_canon kl = key_canon kr"

text \<open>
  The pairs of an outer join: every left row with each right row it matches, or alone when
  it matches none; then the right rows no left row matches.
\<close>

definition outer_pairs ::
  "(cell list \<Rightarrow> cell) \<Rightarrow> (cell list \<Rightarrow> cell) \<Rightarrow> cell list list \<Rightarrow> cell list list
     \<Rightarrow> (cell list option \<times> cell list option) list" where
  "outer_pairs kl kr ls rs =
     concat (map (\<lambda>l. case filter (\<lambda>r. join_matches (kl l) (kr r)) rs of
                          [] \<Rightarrow> [(Some l, None)]
                        | m # ms \<Rightarrow> map (\<lambda>r. (Some l, Some r)) (m # ms)) ls)
     @ map (\<lambda>r. (None, Some r))
         (filter (\<lambda>r. \<not> list_ex (\<lambda>l. join_matches (kl l) (kr r)) ls) rs)"

text \<open>The cell of one side of a pair; null when the pair has no row of that side.\<close>

definition side_cell :: "df \<Rightarrow> cell list option \<Rightarrow> string \<Rightarrow> cell" where
  "side_cell d r c = (case r of None \<Rightarrow> None | Some x \<Rightarrow> cell_at (columns d) x c)"

text \<open>
  \<open>left.join(right, on=key, how="outer", suffix=suffix, coalesce=coalesce_key)\<close>.
  The columns are those of the left frame, then those of the right one, a right column
  whose name the left frame has being renamed with the suffix. With \<open>coalesce=True\<close>
  the right key column is dropped and the key is the first non-null of the two keys;
  without it (the default for an outer join) both key columns are kept. The join keys
  must have one dtype, and a name that occurs twice after renaming raises.
\<close>

definition join_right_cols :: "df \<Rightarrow> string \<Rightarrow> bool \<Rightarrow> (string \<times> dtype) list" where
  "join_right_cols right key coalesce_key =
     (if coalesce_key then filter (\<lambda>(c, t). c \<noteq> key) (schema right) else schema right)"

definition join_right_names :: "df \<Rightarrow> string \<Rightarrow> bool \<Rightarrow> string list" where
  "join_right_names right key coalesce_key = map fst (join_right_cols right key coalesce_key)"

definition join_rename :: "df \<Rightarrow> string \<Rightarrow> string \<Rightarrow> string" where
  "join_rename left suffix c = (if c \<in> set (columns left) then c @ suffix else c)"

definition join_pairs :: "df \<Rightarrow> df \<Rightarrow> string \<Rightarrow> (cell list option \<times> cell list option) list" where
  "join_pairs left right key =
     outer_pairs (\<lambda>l. cell_at (columns left) l key) (\<lambda>r. cell_at (columns right) r key)
       (rows left) (rows right)"

definition join_row ::
  "df \<Rightarrow> df \<Rightarrow> string \<Rightarrow> bool \<Rightarrow> cell list option \<times> cell list option \<Rightarrow> cell list" where
  "join_row left right key coalesce_key p =
     map (\<lambda>c. if coalesce_key \<and> c = key
               then coalesce [side_cell left (fst p) c, side_cell right (snd p) c]
               else side_cell left (fst p) c) (columns left)
     @ map (side_cell right (snd p)) (join_right_names right key coalesce_key)"

definition join_outer :: "df \<Rightarrow> df \<Rightarrow> string \<Rightarrow> string \<Rightarrow> bool \<Rightarrow> error + df" where
  "join_outer left right key suffix coalesce_key =
    (if key \<notin> set (columns left) \<or> key \<notin> set (columns right)
       then Inl (PolarsError (ColumnNotFoundError key))
     else if get_dtype left key \<noteq> get_dtype right key
       then Inl (PolarsError (SchemaError ''join keys''))
     else if \<not> distinct (columns left
                 @ map (join_rename left suffix) (join_right_names right key coalesce_key))
       then Inl (PolarsError (DuplicateError suffix))
     else
       Inr \<lparr> schema = schema left
                 @ map (\<lambda>(c, t). (join_rename left suffix c, t))
                     (join_right_cols right key coalesce_key),
             rows = map (join_row left right key coalesce_key) (join_pairs left right key) \<rparr>)"

subsection \<open>Concatenation and group-by\<close>

text \<open>
  \<open>pl.concat([a, b], how="diagonal")\<close>: the columns of \<open>a\<close>, then those only \<open>b\<close>
  has; a column a frame lacks is null there. The dtype of a column is the one of the first
  frame that has it; the second frame may only differ by having the Null dtype.
\<close>

definition concat_diagonal :: "df \<Rightarrow> df \<Rightarrow> error + df" where
  "concat_diagonal a b =
    (let sch = schema a @ filter (\<lambda>(c, t). c \<notin> set (columns a)) (schema b);
         names = map fst sch
     in if list_ex (\<lambda>(c, t). case get_dtype b c of
                               None \<Rightarrow> False | Some tb \<Rightarrow> tb \<noteq> t \<and> tb \<noteq> Null) (schema a)
          then Inl (PolarsError (SchemaError ''concat''))
        else Inr \<lparr> schema = sch,
                   rows = map (\<lambda>r. map (cell_at (columns a) r) names) (rows a)
                        @ map (\<lambda>r. map (cell_at (columns b) r) names) (rows b) \<rparr>)"

text \<open>The distinct keys of a group-by, each by its first occurrence; null is a key too.\<close>

fun group_keys :: "cell list \<Rightarrow> cell list" where
  "group_keys [] = []"
| "group_keys (k # ks) = k # filter (\<lambda>k'. key_canon k' \<noteq> key_canon k) (group_keys ks)"

text \<open>
  \<open>sort_by\<close>, as a stable insertion sort under a strict order \<open>lt\<close>, and \<open>.first()\<close>.
\<close>

fun insert_by :: "('a \<Rightarrow> 'a \<Rightarrow> bool) \<Rightarrow> 'a \<Rightarrow> 'a list \<Rightarrow> 'a list" where
  "insert_by lt x [] = [x]"
| "insert_by lt x (y # ys) = (if lt y x then y # insert_by lt x ys else x # y # ys)"

fun sort_by :: "('a \<Rightarrow> 'a \<Rightarrow> bool) \<Rightarrow> 'a list \<Rightarrow> 'a list" where
  "sort_by lt [] = []"
| "sort_by lt (x # xs) = insert_by lt x (sort_by lt xs)"

fun first :: "(cell \<times> cell) list \<Rightarrow> cell" where
  "first [] = None"
| "first (x # xs) = fst x"

text \<open>
  The sort keys of \<open>sort_by([pl.col(c).is_null(), pl.col(ts_col)], descending=[False,
  desc])\<close> on candidates (value of \<open>c\<close>, timestamp): non-null values before null ones,
  then by timestamp, descending when \<open>desc\<close>; a null timestamp sorts first in either
  direction (\<open>nulls_last\<close> is off).
\<close>

definition ts_before :: "bool \<Rightarrow> cell \<Rightarrow> cell \<Rightarrow> bool" where
  "ts_before desc a b =
    (case (a, b) of
       (None, Some _) \<Rightarrow> True
     | (Some x, Some y) \<Rightarrow> (if desc then val_less y x else val_less x y)
     | _ \<Rightarrow> False)"

definition precedes :: "bool \<Rightarrow> cell \<times> cell \<Rightarrow> cell \<times> cell \<Rightarrow> bool" where
  "precedes desc p q \<longleftrightarrow>
     (fst p \<noteq> None \<and> fst q = None)
     \<or> ((fst p = None) = (fst q = None) \<and> ts_before desc (snd p) (snd q))"

text \<open>
  \<open>combo.group_by(pk).agg(*aggs)\<close>, \<open>aggs\<close> listing each column with its \<open>desc\<close>:
  one row per key, holding the key and, for each column, the first candidate of the group.
\<close>

definition group_by_agg :: "df \<Rightarrow> string \<Rightarrow> string \<Rightarrow> (string \<times> bool) list \<Rightarrow> df" where
  "group_by_agg combo pk ts_col aggs =
     \<lparr> schema = (pk, the (get_dtype combo pk)) # map (\<lambda>(c, desc). (c, the (get_dtype combo c))) aggs,
       rows = map (\<lambda>k.
           (let grp = filter (\<lambda>r. key_canon (cell_at (columns combo) r pk) = key_canon k)
                        (rows combo)
            in k # map (\<lambda>(c, desc).
                     first (sort_by (precedes desc)
                       (map (\<lambda>r. (cell_at (columns combo) r c, cell_at (columns combo) r ts_col))
                          grp))) aggs))
         (group_keys (map (\<lambda>r. cell_at (columns combo) r pk) (rows combo))) \<rparr>"

section \<open>The validator\<close>

text \<open>
  \<open>df.select(names)\<close> with plain column names: polars raises when a name is not a column
  or is selected twice; otherwise the columns are taken in the order asked.
\<close>

definition select_cols :: "df \<Rightarrow> string list \<Rightarrow> error + df" where
  "select_cols d names =
    (case filter (\<lambda>c. c \<notin> set (columns d)) names of
       c # _ \<Rightarrow> Inl (PolarsError (ColumnNotFoundError c))
     | [] \<Rightarrow>
        (if \<not> distinct names then Inl (PolarsError (DuplicateError ''select''))
         else Inr \<lparr> schema = map (\<lambda>c. (c, the (get_dtype d c))) names,
                    rows = map (\<lambda>r. map (cell_at (columns d) r) names) (rows d) \<rparr>))"

text \<open>
  \<open>ordenar_y_validar(df, esquema, permitir_extras)\<close>. The dict \<open>esquema\<close> is the list of
  its items in insertion order.
\<close>

definition ordenar_y_validar :: "df \<Rightarrow> (string \<times> dtype) list \<Rightarrow> bool \<Rightarrow> error + df" where
  "ordenar_y_validar d esquema permitir_extras =
    (let columnas = map fst esquema;
         faltan = filter (\<lambda>c. c \<notin> set (columns d)) columnas
     in if faltan \<noteq> [] then Inl (MissingColumns faltan)
        else
          let malos = filter (\<lambda>c. get_dtype d c \<noteq> map_of esquema c) columnas
          in if malos \<noteq> [] then Inl (TypeMismatch malos)
             else
               let extras = filter (\<lambda>c. c \<notin> set columnas) (columns d)
               in if extras \<noteq> [] \<and> \<not> permitir_extras then Inl (UnexpectedColumns extras)
                  else select_cols d (columnas @ extras))"

section \<open>The merges\<close>

text \<open>
  \<open>_ensure_df_from_schema(x)\<close>: the base is a DataFrame, or a schema from which an empty
  DataFrame is built.
\<close>

datatype base_arg = Frame df | Schema "(string \<times> dtype) list"

fun ensure_df_from_schema :: "base_arg \<Rightarrow> df" where
  "ensure_df_from_schema (Frame d) = d"
| "ensure_df_from_schema (Schema s) = \<lparr> schema = s, rows = [] \<rparr>"

text \<open>
  The first steps of \<open>upsert_match\<close> and \<open>upsert_bets\<close> are the same lines: a base
  without the key gets a null key column of the delta's key dtype; the overlap is the
  columns of the base the delta has too, the key apart; and the key and the overlapping
  columns of the delta are cast to the dtypes of the base where they differ.
\<close>

definition with_key :: "df \<Rightarrow> df \<Rightarrow> string \<Rightarrow> df" where
  "with_key base delta key =
     (if key \<notin> set (columns base)
      then with_null_columns base [(key, the (get_dtype delta key))] else base)"

definition overlap_cols :: "df \<Rightarrow> df \<Rightarrow> string \<Rightarrow> string list" where
  "overlap_cols base delta key =
     filter (\<lambda>c. c \<in> set (columns delta) \<and> c \<noteq> key) (columns base)"

definition align_delta ::
  "(dtype \<Rightarrow> val \<Rightarrow> val option) \<Rightarrow> df \<Rightarrow> df \<Rightarrow> string \<Rightarrow> error + df" where
  "align_delta cv base delta key =
    (let overlap = overlap_cols base delta key;
         casts = map (\<lambda>c. (c, the (get_dtype base c)))
                   (filter (\<lambda>c. get_dtype delta c \<noteq> get_dtype base c) (key # overlap))
     in if casts \<noteq> [] then cast_columns cv delta casts else Inr delta)"

text \<open>
  \<open>j.select([pl.col(c) for c in base_only] + resolve + [pl.col(c) for c in delta_only])\<close>
  with \<open>resolve = [pl.coalesce(pl.col(c + "_upd"), pl.col(c)).alias(c) for c in overlap]\<close>.
  Both operands of a \<open>coalesce\<close> have the dtype of the base's column, the delta having
  been cast to it.
\<close>

definition resolve_row ::
  "df \<Rightarrow> string list \<Rightarrow> string list \<Rightarrow> string list \<Rightarrow> cell list \<Rightarrow> cell list" where
  "resolve_row j base_only overlap delta_only r =
     map (\<lambda>c. cell_at (columns j) r c) base_only
     @ map (\<lambda>c. coalesce [cell_at (columns j) r (c @ ''_upd''), cell_at (columns j) r c]) overlap
     @ map (\<lambda>c. cell_at (columns j) r c) delta_only"

definition select_resolve ::
  "df \<Rightarrow> string list \<Rightarrow> string list \<Rightarrow> string list \<Rightarrow> error + df" where
  "select_resolve j base_only overlap delta_only =
    (case filter (\<lambda>c. c \<notin> set (columns j))
            (base_only @ concat (map (\<lambda>c. [c @ ''_upd'', c]) overlap) @ delta_only) of
       c # _ \<Rightarrow> Inl (PolarsError (ColumnNotFoundError c))
     | [] \<Rightarrow>
        (if \<not> distinct (base_only @ overlap @ delta_only)
           then Inl (PolarsError (DuplicateError ''select''))
         else
           Inr \<lparr> schema = map (\<lambda>c. (c, the (get_dtype j c))) (base_only @ overlap @ delta_only),
                 rows = map (resolve_row j base_only overlap delta_only) (rows j) \<rparr>))"

definition upsert_match ::
  "(dtype \<Rightarrow> val \<Rightarrow> val option) \<Rightarrow> base_arg \<Rightarrow> df \<Rightarrow> string \<Rightarrow> error + df" where
  "upsert_match cv base0 delta key =
    (if key \<notin> set (columns delta) then Inl (MissingKey key)
     else
       (let base = with_key (ensure_df_from_schema base0) delta key;
            overlap = overlap_cols base delta key
        in case align_delta cv base delta key of
             Inl e \<Rightarrow> Inl e
           | Inr delta' \<Rightarrow>
              (case join_outer base delta' key ''_upd'' True of
                 Inl e \<Rightarrow> Inl e
               | Inr j \<Rightarrow>
                  (let base_only = filter (\<lambda>c. c \<notin> set overlap) (columns base);
                       delta_only = filter (\<lambda>c. c \<notin> set overlap \<and> c \<noteq> key) (columns delta')
                   in case select_resolve j base_only overlap delta_only of
                        Inl e \<Rightarrow> Inl e
                      | Inr out \<Rightarrow> ordenar_y_validar out head_to_head_schema True))))"

text \<open>
  The additive merge. \<open>pl.lit(0)\<close> takes the dtype of the column it is coalesced with;
  with a column of dtype Null it stays the Int32 literal. \<open>+\<close> is null when an operand is.
\<close>

fun lit_zero :: "dtype \<Rightarrow> val" where
  "lit_zero Int64 = IntV 0"
| "lit_zero Float64 = FloatV 0"
| "lit_zero String = StrV ''0''"
| "lit_zero Int32 = I32V 0"
| "lit_zero Null = I32V 0"

fun sum_dtype :: "dtype \<Rightarrow> dtype" where
  "sum_dtype Null = Int32"
| "sum_dtype t = t"

definition add_cell :: "cell \<Rightarrow> cell \<Rightarrow> cell" where
  "add_cell x y = (case (x, y) of (Some a, Some b) \<Rightarrow> Some (add_val a b) | _ \<Rightarrow> None)"

text \<open>
  \<open>pl.coalesce\<close> of two columns of different dtypes casts both to their supertype first.
\<close>

definition supertype :: "dtype \<Rightarrow> dtype \<Rightarrow> dtype" where
  "supertype a b =
    (if a = b then a else if a = Null then b else if b = Null then a
     else if a = String \<or> b = String then String
     else if a = Float64 \<or> b = Float64 then Float64 else Int64)"

definition upcast :: "(dtype \<Rightarrow> val \<Rightarrow> val option) \<Rightarrow> dtype \<Rightarrow> dtype \<Rightarrow> cell \<Rightarrow> cell option" where
  "upcast cv t s x = (if t = s then Some x else cast_cell cv s x)"

text \<open>
  The \<open>with_columns\<close> of \<open>upsert_bets\<close> on the joined frame \<open>j\<close>: every overlapping
  column becomes \<open>coalesce(c, 0) + coalesce(c_r, 0)\<close>, every other column \<open>c\<close> of the
  base for which \<open>j\<close> has a column \<open>c_r\<close> becomes \<open>coalesce(c, c_r)\<close>, the rest stays.
  All expressions read the columns of \<open>j\<close>.
\<close>

definition bets_cell ::
  "(dtype \<Rightarrow> val \<Rightarrow> val option) \<Rightarrow> df \<Rightarrow> string list \<Rightarrow> string list \<Rightarrow> cell list \<Rightarrow> string
     \<Rightarrow> cell option" where
  "bets_cell cv j overlap prefer r c =
    (let t = the (get_dtype j c); x = cell_at (columns j) r c
     in if c \<in> set overlap then
          Some (add_cell (coalesce [x, Some (lit_zero t)])
                  (coalesce [cell_at (columns j) r (c @ ''_r''), Some (lit_zero t)]))
        else if c \<in> set prefer then
          (let t' = the (get_dtype j (c @ ''_r'')); s = supertype t t'
           in case (upcast cv t s x, upcast cv t' s (cell_at (columns j) r (c @ ''_r''))) of
                (Some a, Some b) \<Rightarrow> Some (coalesce [a, b])
              | _ \<Rightarrow> None)
        else Some x)"

definition bets_with_columns ::
  "(dtype \<Rightarrow> val \<Rightarrow> val option) \<Rightarrow> df \<Rightarrow> string list \<Rightarrow> string list \<Rightarrow> error + df" where
  "bets_with_columns cv j overlap prefer =
    (if list_ex (\<lambda>r. None \<in> set (map (bets_cell cv j overlap prefer r) (columns j))) (rows j)
       then Inl (PolarsError (InvalidOperationError ''cast''))
     else
       Inr \<lparr> schema = map (\<lambda>(c, t).
                 (c, if c \<in> set overlap then sum_dtype t
                     else if c \<in> set prefer then supertype t (the (get_dtype j (c @ ''_r'')))
                     else t)) (schema j),
             rows = map (\<lambda>r. map (\<lambda>c. the (bets_cell cv j overlap prefer r c)) (columns j))
                      (rows j) \<rparr>)"

text \<open>\<open>df.drop(names)\<close> for names that are columns.\<close>

definition drop_cols :: "df \<Rightarrow> string list \<Rightarrow> df" where
  "drop_cols d names =
     \<lparr> schema = filter (\<lambda>(c, t). c \<notin> set names) (schema d),
       rows = map (\<lambda>r. map (cell_at (columns d) r) (filter (\<lambda>c. c \<notin> set names) (columns d)))
                (rows d) \<rparr>"

definition upsert_bets ::
  "(dtype \<Rightarrow> val \<Rightarrow> val option) \<Rightarrow> base_arg \<Rightarrow> df \<Rightarrow> string \<Rightarrow> error + df" where
  "upsert_bets cv base0 delta key =
    (if key \<notin> set (columns delta) then Inl (MissingKey key)
     else
       (let base = with_key (ensure_df_from_schema base0) delta key;
            overlap = overlap_cols base delta key;
            base_only = filter (\<lambda>c. c \<notin> set overlap) (columns base)
        in case align_delta cv base delta key of
             Inl e \<Rightarrow> Inl e
           | Inr delta' \<Rightarrow>
              (case join_outer base delta' key ''_r'' False of
                 Inl e \<Rightarrow> Inl e
               | Inr j \<Rightarrow>
                  (let prefer = filter (\<lambda>c. c @ ''_r'' \<in> set (columns j)) base_only;
                       dropped = filter (\<lambda>n. n \<in> set (columns j))
                                   (map (\<lambda>c. c @ ''_r'') (overlap @ base_only))
                   in case bets_with_columns cv j overlap prefer of
                        Inl e \<Rightarrow> Inl e
                      | Inr w \<Rightarrow>
                         ordenar_y_validar (drop_cols w dropped) head_to_head_schema True))))"

text \<open>
  The timestamp-arbitrated merge. \<open>todas\<close> is \<open>list({*df_base.columns,
  *df_delta.columns})\<close>; Python leaves the order of a set's elements open, the model lists
  the columns of the base first. \<open>_alinear\<close> adds the columns a frame lacks as
  \<open>pl.lit(None)\<close>, of dtype Null.
\<close>

definition alinear :: "string list \<Rightarrow> df \<Rightarrow> error + df" where
  "alinear todas d =
    (let faltantes = filter (\<lambda>c. c \<notin> set (columns d)) todas
     in select_cols
          (if faltantes \<noteq> [] then with_null_columns d (map (\<lambda>c. (c, Null)) faltantes) else d)
          todas)"

definition upsert_odds ::
  "df \<Rightarrow> df \<Rightarrow> string \<Rightarrow> string \<Rightarrow> string list \<Rightarrow> string list \<Rightarrow> error + df" where
  "upsert_odds df_base df_delta pk ts_col preferir_reciente preferir_antiguo =
    (let todas = columns df_base @ filter (\<lambda>c. c \<notin> set (columns df_base)) (columns df_delta)
     in if pk \<notin> set todas then Inl (MissingKey pk)
        else if ts_col \<notin> set todas then Inl (MissingTimestamp ts_col)
        else
          (case alinear todas df_base of
             Inl e \<Rightarrow> Inl e
           | Inr a \<Rightarrow>
              (case alinear todas df_delta of
                 Inl e \<Rightarrow> Inl e
               | Inr b \<Rightarrow>
                  (case concat_diagonal a b of
                     Inl e \<Rightarrow> Inl e
                   | Inr combo \<Rightarrow>
                      (let aggs = map (\<lambda>c. (c, if c \<in> set preferir_antiguo then False
                                                else if c \<in> set preferir_reciente then True
                                                else True))
                                    (filter (\<lambda>c. c \<noteq> pk) todas)
                       in ordenar_y_validar (group_by_agg combo pk ts_col aggs)
                            head_to_head_schema True)))))"

section \<open>What the specification says of the merges\<close>

text \<open>
  The spec describes each merge by the value it gives every column of a joined row. A
  joined row is a pair: a row of the base and a row of the delta with the same key, or a
  row of one side alone. These definitions follow the words of the spec; the theorems
  below compare them with the merges as the source computes them.

  Replace-Merge: the key of the row; for a column of both sides the delta's value if
  non-null, otherwise the base's; a column of one side passes through.
\<close>

definition replace_value ::
  "df \<Rightarrow> df \<Rightarrow> string \<Rightarrow> cell list option \<times> cell list option \<Rightarrow> string \<Rightarrow> cell" where
  "replace_value base delta key p c =
    (if c = key then coalesce [side_cell base (fst p) c, side_cell delta (snd p) c]
     else if c \<in> set (columns base) \<and> c \<in> set (columns delta)
       then coalesce [side_cell delta (snd p) c, side_cell base (fst p) c]
     else if c \<in> set (columns base) then side_cell base (fst p) c
     else side_cell delta (snd p) c)"

text \<open>
  A full outer join on the key: one pair for every base row and delta row whose keys
  match, one for every base row no delta row matches, and one for every delta row no base
  row matches.
\<close>

definition full_outer_rows ::
  "df \<Rightarrow> df \<Rightarrow> string \<Rightarrow> (cell list option \<times> cell list option) list" where
  "full_outer_rows base delta key =
     concat (map (\<lambda>l. map (\<lambda>r. (Some l, Some r))
                    (filter (\<lambda>r. join_matches (cell_at (columns base) l key)
                                   (cell_at (columns delta) r key)) (rows delta)))
               (rows base))
     @ map (\<lambda>l. (Some l, None))
         (filter (\<lambda>l. \<not> list_ex (\<lambda>r. join_matches (cell_at (columns base) l key)
                                       (cell_at (columns delta) r key)) (rows delta))
            (rows base))
     @ map (\<lambda>r. (None, Some r))
         (filter (\<lambda>r. \<not> list_ex (\<lambda>l. join_matches (cell_at (columns base) l key)
                                       (cell_at (columns delta) r key)) (rows base))
            (rows delta))"

text \<open>
  The Column Aligner: the key and every overlapping column of the delta whose dtype
  differs from the base's is cast to the base's dtype; nothing else of the delta changes.
  A null stays null. The cast can be made when \<open>cv\<close> converts every value it is asked to.
\<close>

definition needs_cast :: "df \<Rightarrow> df \<Rightarrow> string \<Rightarrow> string \<Rightarrow> bool" where
  "needs_cast base delta key c \<longleftrightarrow>
     c \<in> set (key # overlap_cols base delta key) \<and> get_dtype delta c \<noteq> get_dtype base c"

definition cast_value :: "(dtype \<Rightarrow> val \<Rightarrow> val option) \<Rightarrow> dtype \<Rightarrow> cell \<Rightarrow> cell" where
  "cast_value cv t x = (case x of None \<Rightarrow> None | Some v \<Rightarrow> cv t v)"

definition cast_to_base :: "(dtype \<Rightarrow> val \<Rightarrow> val option) \<Rightarrow> df \<Rightarrow> df \<Rightarrow> string \<Rightarrow> df" where
  "cast_to_base cv base delta key =
     \<lparr> schema = map (\<lambda>(c, t). (c, if needs_cast base delta key c then the (get_dtype base c)
                                   else t)) (schema delta),
       rows = map (\<lambda>r. map (\<lambda>c. if needs_cast base delta key c
                                  then cast_value cv (the (get_dtype base c))
                                         (cell_at (columns delta) r c)
                                  else cell_at (columns delta) r c) (columns delta))
                (rows delta) \<rparr>"

definition castable :: "(dtype \<Rightarrow> val \<Rightarrow> val option) \<Rightarrow> df \<Rightarrow> df \<Rightarrow> string \<Rightarrow> bool" where
  "castable cv base delta key \<longleftrightarrow>
     list_all (\<lambda>r. list_all (\<lambda>c. needs_cast base delta key c \<longrightarrow>
                       (case cell_at (columns delta) r c of
                          None \<Rightarrow> True
                        | Some v \<Rightarrow> cv (the (get_dtype base c)) v \<noteq> None))
                    (columns delta)) (rows delta)"

text \<open>
  The join renames a delta column the base has too by appending the suffix. The renamed
  column must be new: no shared column with the suffix appended is a column of either
  frame.
\<close>

definition suffix_free :: "df \<Rightarrow> df \<Rightarrow> string \<Rightarrow> string \<Rightarrow> bool" where
  "suffix_free base delta key suffix \<longleftrightarrow>
     list_all (\<lambda>c. c \<noteq> key \<and> c \<in> set (columns base) \<longrightarrow>
                 c @ suffix \<notin> set (columns base) \<and> c @ suffix \<notin> set (columns delta))
       (columns delta)"

text \<open>
  The two inputs together hold every canonical column with its declared dtype, the dtype
  of a column of both being the base's.
\<close>

definition canonical_covered :: "df \<Rightarrow> df \<Rightarrow> bool" where
  "canonical_covered base delta \<longleftrightarrow>
     list_all (\<lambda>(c, t). (if c \<in> set (columns base) then get_dtype base c
                         else get_dtype delta c) = Some t) head_to_head_schema"

section \<open>Example tables\<close>

text \<open>No cast is needed in the examples; their \<open>cv\<close> converts nothing.\<close>

definition no_cast :: "dtype \<Rightarrow> val \<Rightarrow> val option" where
  "no_cast t v = None"

text \<open>An empty consolidated table, and a batch of odds without the key column.\<close>

definition empty_base :: df where
  "empty_base = \<lparr> schema = head_to_head_schema, rows = [] \<rparr>"

definition odds_without_key :: df where
  "odds_without_key =
     \<lparr> schema = [(''LastOdds1'', Float64), (''ModifiedOn'', String)],
       rows = [[Some (FloatV 0x3FF8000000000000), Some (StrV ''t1'')]] \<rparr>"

text \<open>A table that has the key column only.\<close>

definition key_only :: df where
  "key_only = \<lparr> schema = [(''MatchId'', Int64)], rows = [[Some (IntV 1)]] \<rparr>"

text \<open>
  A consolidated table with one match, and a batch of match results for it and for a new
  match.
\<close>

definition match_base :: df where
  "match_base =
     \<lparr> schema = head_to_head_schema,
       rows = [[Some (IntV 7), None, Some (IntV 10), Some (IntV 20)] @ replicate 23 None] \<rparr>"

definition match_delta :: df where
  "match_delta =
     \<lparr> schema = [(''MatchId'', Int64), (''HomeId'', Int64), (''FinalHomeScore'', Int64)],
       rows = [[Some (IntV 7), None, Some (IntV 3)],
               [Some (IntV 8), Some (IntV 11), Some (IntV 0)]] \<rparr>"

definition match_out :: df where
  "match_out =
     \<lparr> schema = head_to_head_schema,
       rows = [[Some (IntV 7), None, Some (IntV 10), Some (IntV 20), None, None, Some (IntV 3)]
                 @ replicate 20 None,
               [Some (IntV 8), None, Some (IntV 11), None, None, None, Some (IntV 0)]
                 @ replicate 20 None] \<rparr>"




section \<open>Lemmas on rows and the validator\<close>

lemma cell_at_map: "c \<in> set names \<Longrightarrow> cell_at names (map f names) c = f c"
  by (simp add: cell_at_def map_of_zip_map)

lemma cell_at_notin: "c \<notin> set names \<Longrightarrow> cell_at names r c = None"
  unfolding cell_at_def by (auto split: option.splits dest!: map_of_SomeD set_zip_leftD)

lemma cell_at_append:
  assumes "length r1 = length n1"
  shows "cell_at (n1 @ n2) (r1 @ r2) c = (if c \<in> set n1 then cell_at n1 r1 c else cell_at n2 r2 c)"
proof (cases "c \<in> set n1")
  case True
  then obtain v where "map_of (zip n1 r1) c = Some v"
    using assms by (metis map_of_zip_is_None not_Some_eq)
  with True assms show ?thesis
    by (simp add: cell_at_def map_add_def)
next
  case False
  then have h: "map_of (zip n1 r1) c = None"
    using assms by (simp add: map_of_zip_is_None)
  from False assms show ?thesis
    by (simp add: cell_at_def map_add_def h)
qed

lemma cell_at_map_inj:
  "inj_on g (set xs) \<Longrightarrow> c \<in> set xs \<Longrightarrow> cell_at (map g xs) (map f xs) (g c) = f c"
proof -
  assume inj: "inj_on g (set xs)" and c: "c \<in> set xs"
  have "map_of (zip (map g xs) (map f xs)) (g c) = Some (f c)"
    using inj c
  proof (induction xs)
    case Nil then show ?case by simp
  next
    case (Cons x xs)
    then show ?case by (auto simp: inj_on_def)
  qed
  then show ?thesis by (simp add: cell_at_def)
qed

lemma select_cols_Inr:
  assumes "select_cols d names = Inr out"
  shows "set names \<subseteq> set (columns d)" and "distinct names"
    and "schema out = map (\<lambda>c. (c, the (get_dtype d c))) names"
    and "rows out = map (\<lambda>r. map (cell_at (columns d) r) names) (rows d)"
    and "columns out = names"
proof -
  from assms have f: "filter (\<lambda>c. c \<notin> set (columns d)) names = []"
    by (auto simp: select_cols_def split: list.splits)
  then show "set names \<subseteq> set (columns d)"
    by (auto simp: filter_empty_conv)
  from assms f show "distinct names"
    by (auto simp: select_cols_def split: if_splits)
  from assms f show s: "schema out = map (\<lambda>c. (c, the (get_dtype d c))) names"
    by (auto simp: select_cols_def split: if_splits)
  from assms f show "rows out = map (\<lambda>r. map (cell_at (columns d) r) names) (rows d)"
    by (auto simp: select_cols_def split: if_splits)
  from s show "columns out = names"
    by (simp add: columns_def comp_def)
qed

lemma map_of_self:
  assumes "distinct (map fst xs)"
  shows "map (\<lambda>c. (c, the (map_of xs c))) (map fst xs) = xs"
proof -
  have "\<forall>p\<in>set xs. (fst p, the (map_of xs (fst p))) = p"
    using assms by (auto simp: map_of_eq_Some_iff)
  then show ?thesis
    by (simp add: comp_def map_idI)
qed

lemma ordenar_y_validar_Inr:
  assumes "ordenar_y_validar d esquema pe = Inr out" and "distinct (map fst esquema)"
  defines "extras \<equiv> filter (\<lambda>c. c \<notin> set (map fst esquema)) (columns d)"
  shows "schema out = esquema @ map (\<lambda>c. (c, the (get_dtype d c))) extras"
    and "rows out = map (\<lambda>r. map (cell_at (columns d) r) (map fst esquema @ extras)) (rows d)"
    and "columns out = map fst esquema @ extras"
    and "set (map fst esquema) \<subseteq> set (columns d)"
    and "distinct (map fst esquema @ extras)"
proof -
  from assms(1) have sel: "select_cols d (map fst esquema @ extras) = Inr out"
    and malos: "filter (\<lambda>c. get_dtype d c \<noteq> map_of esquema c) (map fst esquema) = []"
    by (auto simp: ordenar_y_validar_def Let_def extras_def split: if_splits)
  note S = select_cols_Inr[OF sel]
  from malos have "\<forall>c\<in>set (map fst esquema). get_dtype d c = map_of esquema c"
    by (auto simp: filter_empty_conv)
  then have "map (\<lambda>c. (c, the (get_dtype d c))) (map fst esquema)
             = map (\<lambda>c. (c, the (map_of esquema c))) (map fst esquema)"
    by (intro map_cong) auto
  also have "\<dots> = esquema" using assms(2) by (rule map_of_self)
  finally show "schema out = esquema @ map (\<lambda>c. (c, the (get_dtype d c))) extras"
    using S(3) by simp
  show "rows out = map (\<lambda>r. map (cell_at (columns d) r) (map fst esquema @ extras)) (rows d)"
    using S(4) .
  show "columns out = map fst esquema @ extras" using S(5) .
  show "set (map fst esquema) \<subseteq> set (columns d)" using S(1) by simp
  show "distinct (map fst esquema @ extras)" using S(2) .
qed

lemma distinct_head_to_head: "distinct (map fst head_to_head_schema)"
  by (simp add: head_to_head_schema_def)

lemma upsert_match_validated:
  "upsert_match cv base delta key = Inr out \<Longrightarrow>
     \<exists>d. ordenar_y_validar d head_to_head_schema True = Inr out"
  by (auto simp: upsert_match_def Let_def split: if_splits sum.splits)

lemma upsert_bets_validated:
  "upsert_bets cv base delta key = Inr out \<Longrightarrow>
     \<exists>d. ordenar_y_validar d head_to_head_schema True = Inr out"
  by (auto simp: upsert_bets_def Let_def split: if_splits sum.splits)

lemma upsert_odds_validated:
  "upsert_odds df_base df_delta pk ts_col pr pa = Inr out \<Longrightarrow>
     \<exists>d. ordenar_y_validar d head_to_head_schema True = Inr out"
  by (auto simp: upsert_odds_def Let_def split: if_splits sum.splits)

lemma validated_canonical_first:
  assumes "ordenar_y_validar d head_to_head_schema True = Inr out"
  shows "\<exists>extras. schema out = head_to_head_schema @ extras
           \<and> set (map fst extras) \<inter> set (map fst head_to_head_schema) = {}
           \<and> distinct (columns out)"
proof -
  note V = ordenar_y_validar_Inr[OF assms distinct_head_to_head]
  let ?ex = "filter (\<lambda>c. c \<notin> set (map fst head_to_head_schema)) (columns d)"
  let ?extras = "map (\<lambda>c. (c, the (get_dtype d c))) ?ex"
  have "schema out = head_to_head_schema @ ?extras" using V(1) .
  moreover have "set (map fst ?extras) \<inter> set (map fst head_to_head_schema) = {}"
    by (auto simp: comp_def)
  moreover have "distinct (columns out)" using V(3) V(5) by simp
  ultimately show ?thesis by blast
qed

lemma upsert_match_missing_key:
  "key \<notin> set (columns delta) \<Longrightarrow> upsert_match cv base delta key = Inl (MissingKey key)"
  by (simp add: upsert_match_def)

lemma upsert_bets_missing_key:
  "key \<notin> set (columns delta) \<Longrightarrow> upsert_bets cv base delta key = Inl (MissingKey key)"
  by (simp add: upsert_bets_def)

lemma select_cols_not_missing_key: "select_cols d names \<noteq> Inl (MissingKey k)"
  by (simp add: select_cols_def split: list.splits)

lemma ordenar_y_validar_not_missing_key: "ordenar_y_validar d esquema pe \<noteq> Inl (MissingKey k)"
  by (simp add: ordenar_y_validar_def Let_def select_cols_not_missing_key)

lemma concat_diagonal_not_missing_key: "concat_diagonal a b \<noteq> Inl (MissingKey k)"
  by (simp add: concat_diagonal_def Let_def)

lemma alinear_not_missing_key: "alinear todas d \<noteq> Inl (MissingKey k)"
  by (simp add: alinear_def Let_def select_cols_not_missing_key)

lemma upsert_odds_missing_key_iff:
  "upsert_odds df_base df_delta pk ts_col pr pa = Inl (MissingKey k)
     \<longleftrightarrow> k = pk \<and> pk \<notin> set (columns df_base) \<and> pk \<notin> set (columns df_delta)"
proof -
  define todas where
    "todas = columns df_base @ filter (\<lambda>c. c \<notin> set (columns df_base)) (columns df_delta)"
  have mem: "pk \<in> set todas \<longleftrightarrow> pk \<in> set (columns df_base) \<or> pk \<in> set (columns df_delta)"
    by (auto simp: todas_def)
  note unf = upsert_odds_def [of df_base df_delta pk ts_col pr pa, unfolded Let_def,
      folded todas_def]
  show ?thesis
  proof (cases "pk \<in> set todas")
    case False
    then have "upsert_odds df_base df_delta pk ts_col pr pa = Inl (MissingKey pk)"
      by (simp add: unf)
    with False mem show ?thesis by auto
  next
    case True
    have "upsert_odds df_base df_delta pk ts_col pr pa \<noteq> Inl (MissingKey k)"
    proof (cases "ts_col \<in> set todas")
      case False
      with True show ?thesis by (simp add: unf)
    next
      case ts: True
      show ?thesis
      proof (cases "alinear todas df_base")
        case (Inl e)
        with True ts alinear_not_missing_key[of todas df_base k] show ?thesis
          by (simp add: unf)
      next
        case a: (Inr a)
        show ?thesis
        proof (cases "alinear todas df_delta")
          case (Inl e)
          with True ts a alinear_not_missing_key[of todas df_delta k] show ?thesis
            by (simp add: unf)
        next
          case b: (Inr b)
          show ?thesis
          proof (cases "concat_diagonal a b")
            case (Inl e)
            with True ts a b concat_diagonal_not_missing_key[of a b k] show ?thesis
              by (simp add: unf)
          next
            case (Inr combo)
            with True ts a b show ?thesis
              by (simp add: unf ordenar_y_validar_not_missing_key)
          qed
        qed
      qed
    qed
    with True mem show ?thesis by auto
  qed
qed

section \<open>Lemmas on the join and the replace merge\<close>

lemma cast_columns_Inr:
  assumes "cast_columns cv d casts = Inr d'"
  shows "columns d' = columns d"
    and "rows d' = map (\<lambda>r. map (\<lambda>c. the (case map_of casts c of
                                      None \<Rightarrow> Some (cell_at (columns d) r c)
                                    | Some t \<Rightarrow> cast_cell cv t (cell_at (columns d) r c)))
                              (columns d)) (rows d)"
    and "get_dtype d' = (\<lambda>c. case map_of casts c of None \<Rightarrow> get_dtype d c
                              | Some t \<Rightarrow> (if c \<in> set (columns d) then Some t else None))"
proof -
  from assms have s: "schema d' = map (\<lambda>(c, t). (c, case map_of casts c of None \<Rightarrow> t | Some t' \<Rightarrow> t')) (schema d)"
    and r: "rows d' = map (\<lambda>r. map the (map (\<lambda>c. case map_of casts c of
                                      None \<Rightarrow> Some (cell_at (columns d) r c)
                                    | Some t \<Rightarrow> cast_cell cv t (cell_at (columns d) r c))
                              (columns d))) (rows d)"
    by (auto simp: cast_columns_def Let_def split: if_splits)
  from s show "columns d' = columns d" by (simp add: columns_def case_prod_beta comp_def)
  from r show "rows d' = map (\<lambda>r. map (\<lambda>c. the (case map_of casts c of
                                      None \<Rightarrow> Some (cell_at (columns d) r c)
                                    | Some t \<Rightarrow> cast_cell cv t (cell_at (columns d) r c)))
                              (columns d)) (rows d)"
    by (simp add: comp_def)
  have m: "map_of (map (\<lambda>(c, t). (c, case map_of casts c of None \<Rightarrow> t | Some t' \<Rightarrow> t')) xs) c
        = (case map_of casts c of None \<Rightarrow> map_of xs c
           | Some t \<Rightarrow> (if c \<in> set (map fst xs) then Some t else None))" for xs c
    by (induction xs) (auto split: option.splits)
  show "get_dtype d' = (\<lambda>c. case map_of casts c of None \<Rightarrow> get_dtype d c
                              | Some t \<Rightarrow> (if c \<in> set (columns d) then Some t else None))"
    by (rule ext) (simp add: get_dtype_def columns_def s m split: option.split)
qed

lemma align_delta_columns:
  "align_delta cv b d key = Inr d' \<Longrightarrow> columns d' = columns d"
  by (auto simp: align_delta_def Let_def cast_columns_Inr(1) split: if_splits)

lemma join_right_names_eq:
  "join_right_names R key ck = (if ck then filter (\<lambda>c. c \<noteq> key) (columns R) else columns R)"
proof -
  have "map fst (filter (\<lambda>(c, t). c \<noteq> key) xs) = filter (\<lambda>c. c \<noteq> key) (map fst xs)"
    for xs :: "(string \<times> dtype) list"
    by (induction xs) auto
  then show ?thesis
    by (simp add: join_right_names_def join_right_cols_def columns_def)
qed

lemma join_outer_Inr:
  assumes "join_outer L R key sfx ck = Inr j"
  shows "key \<in> set (columns L)" and "key \<in> set (columns R)"
    and "get_dtype L key = get_dtype R key"
    and "columns j = columns L @ map (join_rename L sfx) (join_right_names R key ck)"
    and "distinct (columns L @ map (join_rename L sfx) (join_right_names R key ck))"
    and "rows j = map (join_row L R key ck) (join_pairs L R key)"
proof -
  from assms show k: "key \<in> set (columns L)" "key \<in> set (columns R)"
    and "get_dtype L key = get_dtype R key"
    by (auto simp: join_outer_def split: if_splits)
  from assms show d: "distinct (columns L @ map (join_rename L sfx) (join_right_names R key ck))"
    by (auto simp: join_outer_def split: if_splits)
  from assms have j: "j = \<lparr> schema = schema L
                 @ map (\<lambda>(c, t). (join_rename L sfx c, t)) (join_right_cols R key ck),
             rows = map (join_row L R key ck) (join_pairs L R key) \<rparr>"
    by (simp add: join_outer_def split: if_splits)
  have "map fst (map (\<lambda>(c, t). (f c, t)) xs) = map f (map fst xs)"
    for f :: "string \<Rightarrow> string" and xs :: "(string \<times> dtype) list"
    by (induction xs) auto
  with j show "columns j = columns L @ map (join_rename L sfx) (join_right_names R key ck)"
    by (simp add: columns_def join_right_names_def)
  from j show "rows j = map (join_row L R key ck) (join_pairs L R key)"
    by simp
qed

text \<open>The cells of a joined row.\<close>

lemma join_row_left:
  assumes "c \<in> set (columns L)"
  shows "cell_at (columns L @ map (join_rename L sfx) (join_right_names R key ck))
           (join_row L R key ck p) c
         = (if ck \<and> c = key then coalesce [side_cell L (fst p) c, side_cell R (snd p) c]
            else side_cell L (fst p) c)"
  using assms
  by (simp add: join_row_def cell_at_append cell_at_map)

lemma join_row_right:
  assumes "distinct (columns L @ map (join_rename L sfx) (join_right_names R key ck))"
    and "c \<in> set (join_right_names R key ck)"
  shows "cell_at (columns L @ map (join_rename L sfx) (join_right_names R key ck))
           (join_row L R key ck p) (join_rename L sfx c)
         = side_cell R (snd p) c"
proof -
  from assms have "join_rename L sfx c \<notin> set (columns L)" by auto
  moreover from assms(1) have "inj_on (join_rename L sfx) (set (join_right_names R key ck))"
    by (simp add: distinct_map)
  ultimately show ?thesis
    using assms(2)
    by (simp add: join_row_def cell_at_append cell_at_map_inj)
qed

lemma select_resolve_Inr:
  assumes "select_resolve j bo ov dl = Inr pre"
  shows "columns pre = bo @ ov @ dl" and "distinct (bo @ ov @ dl)"
    and "rows pre = map (resolve_row j bo ov dl) (rows j)"
    and "schema pre = map (\<lambda>c. (c, the (get_dtype j c))) (bo @ ov @ dl)"
proof -
  from assms have f: "filter (\<lambda>c. c \<notin> set (columns j))
            (bo @ concat (map (\<lambda>c. [c @ ''_upd'', c]) ov) @ dl) = []"
    by (auto simp: select_resolve_def split: list.splits)
  from assms f show "distinct (bo @ ov @ dl)"
    by (simp add: select_resolve_def split: if_splits)
  from assms f show s: "schema pre = map (\<lambda>c. (c, the (get_dtype j c))) (bo @ ov @ dl)"
    by (auto simp: select_resolve_def split: if_splits)
  from s show "columns pre = bo @ ov @ dl"
    by (simp add: columns_def comp_def)
  from assms f show "rows pre = map (resolve_row j bo ov dl) (rows j)"
    by (auto simp: select_resolve_def split: if_splits)
qed

lemma resolve_row_cell:
  assumes "distinct (bo @ ov @ dl)" and "c \<in> set (bo @ ov @ dl)"
  shows "cell_at (bo @ ov @ dl) (resolve_row j bo ov dl r) c
         = (if c \<in> set ov then coalesce [cell_at (columns j) r (c @ ''_upd''), cell_at (columns j) r c]
            else cell_at (columns j) r c)"
proof -
  let ?F = "\<lambda>c. if c \<in> set ov then coalesce [cell_at (columns j) r (c @ ''_upd''), cell_at (columns j) r c]
            else cell_at (columns j) r c"
  from assms(1) have "resolve_row j bo ov dl r = map ?F (bo @ ov @ dl)"
    by (auto simp: resolve_row_def)
  with assms(2) show ?thesis
    by (simp only: cell_at_map)
qed

lemma validated_columns:
  assumes "ordenar_y_validar pre head_to_head_schema True = Inr out"
  shows "set (columns out) = set (columns pre)"
    and "rows out = map (\<lambda>r. map (cell_at (columns pre) r) (columns out)) (rows pre)"
    and "columns out = map fst head_to_head_schema
           @ filter (\<lambda>c. c \<notin> set (map fst head_to_head_schema)) (columns pre)"
proof -
  note V = ordenar_y_validar_Inr[OF assms distinct_head_to_head]
  show c: "columns out = map fst head_to_head_schema
           @ filter (\<lambda>c. c \<notin> set (map fst head_to_head_schema)) (columns pre)"
    using V(3) .
  from V(4) show "set (columns out) = set (columns pre)"
    unfolding c by auto
  show "rows out = map (\<lambda>r. map (cell_at (columns pre) r) (columns out)) (rows pre)"
    using V(2) unfolding c .
qed

lemma upsert_match_Inr:
  assumes "upsert_match cv base0 delta key = Inr out"
  defines "B \<equiv> with_key (ensure_df_from_schema base0) delta key"
  obtains D where "align_delta cv B delta key = Inr D"
    and "columns D = columns delta"
    and "key \<in> set (columns B)" and "key \<in> set (columns delta)"
    and "set (columns out) = set (columns B) \<union> set (columns delta)"
    and "rows out = map (\<lambda>p. map (replace_value B D key p) (columns out)) (join_pairs B D key)"
    and "columns out = map fst head_to_head_schema
           @ filter (\<lambda>c. c \<notin> set (map fst head_to_head_schema))
               (filter (\<lambda>c. c \<notin> set (overlap_cols B delta key)) (columns B)
                @ overlap_cols B delta key
                @ filter (\<lambda>c. c \<notin> set (columns B)) (columns delta))"
proof -
  from assms(1) have kd: "key \<in> set (columns delta)"
    by (auto simp: upsert_match_def split: if_splits)
  define ov where "ov = overlap_cols B delta key"
  define bo where "bo = filter (\<lambda>c. c \<notin> set ov) (columns B)"
  note unf = upsert_match_def [of cv base0 delta key, unfolded Let_def, folded B_def,
      folded ov_def, folded bo_def]
  from assms(1) kd obtain D where D: "align_delta cv B delta key = Inr D"
    unfolding unf by (auto split: sum.splits)
  define dl where "dl = filter (\<lambda>c. c \<notin> set ov \<and> c \<noteq> key) (columns D)"
  from assms(1) kd D obtain j where j: "join_outer B D key ''_upd'' True = Inr j"
    unfolding unf by (auto split: sum.splits)
  from assms(1) kd D j obtain pre where pre: "select_resolve j bo ov dl = Inr pre"
    and out: "ordenar_y_validar pre head_to_head_schema True = Inr out"
    unfolding unf dl_def by (auto split: sum.splits)
  note J = join_outer_Inr[OF j]
  note P = select_resolve_Inr[OF pre]
  note V = validated_columns[OF out]
  have cD: "columns D = columns delta" using align_delta_columns[OF D] .
  have rn: "join_right_names D key True = filter (\<lambda>c. c \<noteq> key) (columns delta)"
    by (simp add: join_right_names_eq cD)
  have ov: "set ov = {c \<in> set (columns B). c \<in> set (columns delta) \<and> c \<noteq> key}"
    by (auto simp: ov_def overlap_cols_def)
  have bo: "set bo = {c \<in> set (columns B). c \<notin> set (columns delta) \<or> c = key}"
    by (auto simp: bo_def ov)
  have dl: "set dl = {c \<in> set (columns delta). c \<notin> set (columns B) \<and> c \<noteq> key}"
    by (auto simp: dl_def ov cD)
  have cols_pre: "set (bo @ ov @ dl) = set (columns B) \<union> set (columns delta)"
    using kd J(1) by (auto simp: bo ov dl)
  have cell: "cell_at (bo @ ov @ dl) (resolve_row j bo ov dl (join_row B D key True p)) c
              = replace_value B D key p c"
    if c: "c \<in> set (bo @ ov @ dl)" for p c
  proof -
    let ?jr = "join_row B D key True p"
    have left: "cell_at (columns j) ?jr c
                = (if c = key then coalesce [side_cell B (fst p) c, side_cell D (snd p) c]
                   else side_cell B (fst p) c)" if "c \<in> set (columns B)" for c
      using join_row_left[OF that, of "''_upd''" D key True p] unfolding J(4) by simp
    have right: "cell_at (columns j) ?jr (join_rename B ''_upd'' c) = side_cell D (snd p) c"
      if "c \<in> set (columns delta)" "c \<noteq> key" for c
      using join_row_right[OF J(5), of c p] that unfolding J(4) rn by simp
    have R: "cell_at (bo @ ov @ dl) (resolve_row j bo ov dl ?jr) c
         = (if c \<in> set ov then coalesce [cell_at (columns j) ?jr (c @ ''_upd''), cell_at (columns j) ?jr c]
            else cell_at (columns j) ?jr c)"
      using resolve_row_cell[OF P(2) c] .
    consider (o) "c \<in> set ov" | (b) "c \<in> set bo" "c \<notin> set ov" | (d) "c \<in> set dl" "c \<notin> set ov"
      using c by auto
    then show ?thesis
    proof cases
      case o
      then have 1: "c \<in> set (columns B)" "c \<in> set (columns delta)" "c \<noteq> key"
        by (auto simp: ov)
      from right[OF 1(2,3)] 1(1) have "cell_at (columns j) ?jr (c @ ''_upd'') = side_cell D (snd p) c"
        by (simp add: join_rename_def)
      with o 1 left[OF 1(1)] show ?thesis
        unfolding R by (simp add: replace_value_def cD)
    next
      case b
      then have 1: "c \<in> set (columns B)" "c \<notin> set (columns delta) \<or> c = key"
        by (auto simp: bo)
      with b left[OF 1(1)] show ?thesis
        unfolding R by (auto simp: replace_value_def cD)
    next
      case d
      then have 1: "c \<in> set (columns delta)" "c \<notin> set (columns B)" "c \<noteq> key"
        by (auto simp: dl)
      from right[OF 1(1,3)] 1(2) have "cell_at (columns j) ?jr c = side_cell D (snd p) c"
        by (simp add: join_rename_def)
      with d 1 show ?thesis
        unfolding R by (simp add: replace_value_def cD)
    qed
  qed
  have so: "set (columns out) = set (bo @ ov @ dl)"
    using V(1) P(1) by simp
  have "rows out = map (\<lambda>r. map (cell_at (bo @ ov @ dl) r) (columns out)) (rows pre)"
    using V(2) P(1) by simp
  also have "\<dots> = map (\<lambda>p. map (cell_at (bo @ ov @ dl) (resolve_row j bo ov dl (join_row B D key True p)))
                    (columns out)) (join_pairs B D key)"
    by (simp add: P(3) J(6) comp_def)
  also have "\<dots> = map (\<lambda>p. map (replace_value B D key p) (columns out)) (join_pairs B D key)"
    using cell so by (intro map_cong refl) auto
  finally have rows: "rows out = map (\<lambda>p. map (replace_value B D key p) (columns out)) (join_pairs B D key)" .
  have "dl = filter (\<lambda>c. c \<notin> set (columns B)) (columns delta)"
    unfolding dl_def cD using J(1) by (intro filter_cong refl) (auto simp: ov)
  with V(3) P(1) have co: "columns out = map fst head_to_head_schema
           @ filter (\<lambda>c. c \<notin> set (map fst head_to_head_schema))
               (filter (\<lambda>c. c \<notin> set (overlap_cols B delta key)) (columns B)
                @ overlap_cols B delta key
                @ filter (\<lambda>c. c \<notin> set (columns B)) (columns delta))"
    by (simp add: bo_def ov_def)
  show thesis
    using that[OF D cD J(1) kd _ rows co] so cols_pre by simp
qed

lemma outer_pairs_set:
  "p \<in> set (outer_pairs kl kr ls rs) \<longleftrightarrow>
    (case p of
       (Some l, Some r) \<Rightarrow> l \<in> set ls \<and> r \<in> set rs \<and> join_matches (kl l) (kr r)
     | (Some l, None) \<Rightarrow> l \<in> set ls \<and> \<not> list_ex (\<lambda>r. join_matches (kl l) (kr r)) rs
     | (None, Some r) \<Rightarrow> r \<in> set rs \<and> \<not> list_ex (\<lambda>l. join_matches (kl l) (kr r)) ls
     | (None, None) \<Rightarrow> False)"
proof -
  let ?f = "\<lambda>l. case filter (\<lambda>r. join_matches (kl l) (kr r)) rs of
                          [] \<Rightarrow> [(Some l, None)]
                        | m # ms \<Rightarrow> map (\<lambda>r. (Some l, Some r)) (m # ms)"
  have f: "q \<in> set (?f l) \<longleftrightarrow>
             (q = (Some l, None) \<and> \<not> list_ex (\<lambda>r. join_matches (kl l) (kr r)) rs)
           \<or> (\<exists>r\<in>set rs. join_matches (kl l) (kr r) \<and> q = (Some l, Some r))" for q l
  proof (cases "filter (\<lambda>r. join_matches (kl l) (kr r)) rs")
    case Nil
    then have "\<forall>r\<in>set rs. \<not> join_matches (kl l) (kr r)"
      by (simp add: filter_empty_conv)
    with Nil show ?thesis by (auto simp: list_ex_iff)
  next
    case (Cons m ms)
    then have "set (m # ms) = {r \<in> set rs. join_matches (kl l) (kr r)}"
      by (metis set_filter)
    moreover from this have "list_ex (\<lambda>r. join_matches (kl l) (kr r)) rs"
      by (auto simp: list_ex_iff)
    ultimately show ?thesis using Cons by auto
  qed
  obtain a b where p: "p = (a, b)" by (cases p)
  show ?thesis
    unfolding outer_pairs_def p
    by (cases a; cases b) (auto simp: f list_ex_iff)
qed

lemma with_key_id: "key \<in> set (columns base) \<Longrightarrow> with_key base delta key = base"
  by (simp add: with_key_def)

lemma align_delta_same_dtypes:
  assumes "\<forall>c\<in>set (key # overlap_cols base delta key). get_dtype delta c = get_dtype base c"
  shows "align_delta cv base delta key = Inr delta"
proof -
  from assms have "filter (\<lambda>c. get_dtype delta c \<noteq> get_dtype base c)
                     (key # overlap_cols base delta key) = []"
    by (simp add: filter_empty_conv)
  then show ?thesis
    by (simp add: align_delta_def Let_def)
qed

section \<open>When the replace merge returns a table\<close>

lemma wf_df_distinct: "wf_df d \<Longrightarrow> distinct (columns d)"
  by (simp add: wf_df_def)

lemma wf_df_length: "wf_df d \<Longrightarrow> r \<in> set (rows d) \<Longrightarrow> length r = length (columns d)"
  by (auto simp: wf_df_def list_all_iff columns_def)

lemma cell_at_row_id:
  assumes "distinct names" and "length r = length names"
  shows "map (cell_at names r) names = r"
proof (rule nth_equalityI)
  show "length (map (cell_at names r) names) = length r" using assms(2) by simp
next
  fix i assume "i < length (map (cell_at names r) names)"
  then have i: "i < length names" by simp
  with assms have "map_of (zip names r) (names ! i) = Some (r ! i)"
    by (simp add: map_of_zip_nth)
  with i show "map (cell_at names r) names ! i = r ! i"
    by (simp add: cell_at_def)
qed

lemma wf_row_id: "wf_df d \<Longrightarrow> r \<in> set (rows d) \<Longrightarrow> map (cell_at (columns d) r) (columns d) = r"
  by (simp add: cell_at_row_id wf_df_distinct wf_df_length)

lemma get_dtype_None_iff: "get_dtype d c = None \<longleftrightarrow> c \<notin> set (columns d)"
  by (simp add: get_dtype_def columns_def map_of_eq_None_iff)

lemma get_dtype_schema:
  "distinct (columns d) \<Longrightarrow> (c, t) \<in> set (schema d) \<Longrightarrow> get_dtype d c = Some t"
  by (simp add: get_dtype_def columns_def)

lemma map_of_graph:
  "map_of (map (\<lambda>c. (c, f c)) xs) c = (if c \<in> set xs then Some (f c) else None)"
  by (induction xs) auto

lemma align_casts_lookup:
  "map_of (map (\<lambda>c. (c, the (get_dtype base c)))
             (filter (\<lambda>c. get_dtype delta c \<noteq> get_dtype base c)
                (key # overlap_cols base delta key))) c
   = (if needs_cast base delta key c then Some (the (get_dtype base c)) else None)"
  unfolding map_of_graph needs_cast_def by auto

lemma df_eqI: "schema a = schema b \<Longrightarrow> rows a = rows b \<Longrightarrow> a = (b :: df)"
  by simp

lemma align_delta_cast_to_base:
  assumes wf: "wf_df delta" and castable: "castable cv base delta key"
  shows "align_delta cv base delta key = Inr (cast_to_base cv base delta key)"
proof -
  define casts where "casts = map (\<lambda>c. (c, the (get_dtype base c)))
             (filter (\<lambda>c. get_dtype delta c \<noteq> get_dtype base c)
                (key # overlap_cols base delta key))"
  have L: "map_of casts c
           = (if needs_cast base delta key c then Some (the (get_dtype base c)) else None)" for c
    unfolding casts_def by (rule align_casts_lookup)
  note unf = align_delta_def [of cv base delta key, unfolded Let_def, folded casts_def]
  show ?thesis
  proof (cases "casts = []")
    case True
    then have none: "\<not> needs_cast base delta key c" for c
      using L[of c] by (auto split: if_splits)
    have "schema (cast_to_base cv base delta key) = schema delta"
      by (simp add: cast_to_base_def none case_prod_beta)
    moreover have "rows (cast_to_base cv base delta key) = rows delta"
      using wf by (simp add: cast_to_base_def none wf_row_id map_idI)
    ultimately have "cast_to_base cv base delta key = delta"
      by (rule df_eqI)
    with True show ?thesis
      by (simp add: unf)
  next
    case False
    have ok: "(case map_of casts c of
                 None \<Rightarrow> Some (cell_at (columns delta) r c)
               | Some t \<Rightarrow> cast_cell cv t (cell_at (columns delta) r c))
              = Some (if needs_cast base delta key c
                      then cast_value cv (the (get_dtype base c)) (cell_at (columns delta) r c)
                      else cell_at (columns delta) r c)"
      if "r \<in> set (rows delta)" "c \<in> set (columns delta)" for r c
    proof (cases "needs_cast base delta key c")
      case False
      then show ?thesis by (simp add: L)
    next
      case True
      with castable that have "case cell_at (columns delta) r c of
                          None \<Rightarrow> True
                        | Some v \<Rightarrow> cv (the (get_dtype base c)) v \<noteq> None"
        by (auto simp: castable_def list_all_iff)
      with True show ?thesis
        by (auto simp: L cast_cell_def cast_value_def split: option.splits)
    qed
    have nofail: "\<not> list_ex (\<lambda>r. None \<in> set (map (\<lambda>c. case map_of casts c of
                                      None \<Rightarrow> Some (cell_at (columns delta) r c)
                                    | Some t \<Rightarrow> cast_cell cv t (cell_at (columns delta) r c))
                              (columns delta))) (rows delta)"
      using ok by (auto simp: list_ex_iff)
    have rows: "map (\<lambda>r. map the (map (\<lambda>c. case map_of casts c of
                                      None \<Rightarrow> Some (cell_at (columns delta) r c)
                                    | Some t \<Rightarrow> cast_cell cv t (cell_at (columns delta) r c))
                              (columns delta))) (rows delta)
                = rows (cast_to_base cv base delta key)"
      unfolding cast_to_base_def df.simps map_map
      by (intro map_cong refl) (simp add: ok)
    have schema: "map (\<lambda>(c, t). (c, case map_of casts c of None \<Rightarrow> t | Some t' \<Rightarrow> t')) (schema delta)
                = schema (cast_to_base cv base delta key)"
      unfolding cast_to_base_def df.simps
      by (intro map_cong refl) (auto simp: L)
    have "cast_columns cv delta casts = Inr (cast_to_base cv base delta key)"
      using nofail unfolding cast_columns_def Let_def
      by (simp only: if_False rows schema) (simp add: df_eqI)
    with False show ?thesis
      by (simp add: unf)
  qed
qed

lemma cast_to_base_columns: "columns (cast_to_base cv base delta key) = columns delta"
  by (simp add: cast_to_base_def columns_def case_prod_beta comp_def)

lemma cast_to_base_dtype:
  "get_dtype (cast_to_base cv base delta key) c
   = (if needs_cast base delta key c \<and> c \<in> set (columns delta)
      then Some (the (get_dtype base c)) else get_dtype delta c)"
proof -
  have "map_of (map (\<lambda>(c, t). (c, if P c then f c else t)) xs) c
        = (if P c \<and> c \<in> set (map fst xs) then Some (f c) else map_of xs c)"
    for P f and xs :: "(string \<times> dtype) list"
    by (induction xs) auto
  then show ?thesis
    by (simp add: cast_to_base_def get_dtype_def columns_def)
qed

lemma cast_to_base_key_dtype:
  assumes "key \<in> set (columns base)" and "key \<in> set (columns delta)"
  shows "get_dtype (cast_to_base cv base delta key) key = get_dtype base key"
proof -
  from assms(1) obtain t where t: "get_dtype base key = Some t"
    using get_dtype_None_iff[of base key] by auto
  show ?thesis
    using assms(2) t by (auto simp: cast_to_base_dtype needs_cast_def)
qed

text \<open>The pairs of the join, counted.\<close>

lemma mset_outer_pairs:
  "mset (outer_pairs kl kr ls rs)
   = mset (concat (map (\<lambda>l. map (\<lambda>r. (Some l, Some r))
                    (filter (\<lambda>r. join_matches (kl l) (kr r)) rs)) ls)
           @ map (\<lambda>l. (Some l, None))
               (filter (\<lambda>l. \<not> list_ex (\<lambda>r. join_matches (kl l) (kr r)) rs) ls)
           @ map (\<lambda>r. (None, Some r))
               (filter (\<lambda>r. \<not> list_ex (\<lambda>l. join_matches (kl l) (kr r)) ls) rs))"
proof -
  let ?f = "\<lambda>l. case filter (\<lambda>r. join_matches (kl l) (kr r)) rs of
                          [] \<Rightarrow> [(Some l, None)]
                        | m # ms \<Rightarrow> map (\<lambda>r. (Some l, Some r)) (m # ms)"
  have f: "mset (?f l)
           = mset (map (\<lambda>r. (Some l, Some r)) (filter (\<lambda>r. join_matches (kl l) (kr r)) rs))
             + mset (map (\<lambda>l. (Some l, None))
                  (filter (\<lambda>l. \<not> list_ex (\<lambda>r. join_matches (kl l) (kr r)) rs) [l]))" for l
  proof (cases "filter (\<lambda>r. join_matches (kl l) (kr r)) rs")
    case Nil
    then have "\<not> list_ex (\<lambda>r. join_matches (kl l) (kr r)) rs"
      by (simp add: filter_empty_conv list_ex_iff)
    with Nil show ?thesis by simp
  next
    case (Cons m ms)
    then have "m \<in> set (filter (\<lambda>r. join_matches (kl l) (kr r)) rs)" by simp
    then have "list_ex (\<lambda>r. join_matches (kl l) (kr r)) rs"
      by (auto simp: list_ex_iff)
    with Cons show ?thesis by simp
  qed
  have "mset (concat (map ?f ls))
        = mset (concat (map (\<lambda>l. map (\<lambda>r. (Some l, Some r))
                    (filter (\<lambda>r. join_matches (kl l) (kr r)) rs)) ls))
          + mset (map (\<lambda>l. (Some l, None))
               (filter (\<lambda>l. \<not> list_ex (\<lambda>r. join_matches (kl l) (kr r)) rs) ls))"
  proof (induction ls)
    case Nil
    show ?case by simp
  next
    case (Cons l ls)
    have "mset (concat (map ?f (l # ls))) = mset (?f l) + mset (concat (map ?f ls))"
      by simp
    also note f
    also note Cons.IH
    finally show ?case by (simp add: ac_simps)
  qed
  then show ?thesis
    by (simp add: outer_pairs_def)
qed

lemma mset_join_pairs: "mset (join_pairs B D key) = mset (full_outer_rows B D key)"
  unfolding join_pairs_def full_outer_rows_def by (rule mset_outer_pairs)

lemma ordenar_y_validar_success:
  assumes sub: "set (map fst esquema) \<subseteq> set (columns d)"
    and ty: "\<forall>c\<in>set (map fst esquema). get_dtype d c = map_of esquema c"
    and dd: "distinct (columns d)" and de: "distinct (map fst esquema)"
  shows "\<exists>out. ordenar_y_validar d esquema True = Inr out"
proof -
  let ?cs = "map fst esquema"
  let ?ex = "filter (\<lambda>c. c \<notin> set ?cs) (columns d)"
  from sub have faltan: "filter (\<lambda>c. c \<notin> set (columns d)) ?cs = []"
    by (auto simp: filter_empty_conv)
  from ty have malos: "filter (\<lambda>c. get_dtype d c \<noteq> map_of esquema c) ?cs = []"
    by (auto simp: filter_empty_conv)
  from sub have miss: "filter (\<lambda>c. c \<notin> set (columns d)) (?cs @ ?ex) = []"
    by (auto simp: filter_empty_conv)
  from dd de have dist: "distinct (?cs @ ?ex)" by auto
  have "\<exists>out. select_cols d (?cs @ ?ex) = Inr out"
    unfolding select_cols_def miss using dist by simp
  then show ?thesis
    unfolding ordenar_y_validar_def Let_def faltan malos by simp
qed

lemma suffix_free_distinct:
  assumes "distinct (columns base)" and "distinct (columns delta)"
    and "suffix_free base delta key sfx"
  shows "distinct (columns base
           @ map (join_rename base sfx) (filter (\<lambda>c. c \<noteq> key) (columns delta)))"
proof -
  let ?rn = "filter (\<lambda>c. c \<noteq> key) (columns delta)"
  from assms(3) have sf: "c @ sfx \<notin> set (columns base) \<and> c @ sfx \<notin> set (columns delta)"
    if "c \<in> set ?rn" "c \<in> set (columns base)" for c
    using that by (auto simp: suffix_free_def list_all_iff)
  have "inj_on (join_rename base sfx) (set ?rn)"
  proof (rule inj_onI)
    fix x y assume x: "x \<in> set ?rn" and y: "y \<in> set ?rn"
      and e: "join_rename base sfx x = join_rename base sfx y"
    show "x = y"
    proof (cases "x \<in> set (columns base)"; cases "y \<in> set (columns base)")
      assume "x \<in> set (columns base)" "y \<notin> set (columns base)"
      with e sf[OF x] y show ?thesis by (auto simp: join_rename_def)
    next
      assume "x \<notin> set (columns base)" "y \<in> set (columns base)"
      with e sf[OF y] x show ?thesis by (auto simp: join_rename_def)
    qed (use e in \<open>auto simp: join_rename_def\<close>)
  qed
  moreover from assms(2) have "distinct ?rn" by simp
  moreover have "join_rename base sfx c \<notin> set (columns base)" if "c \<in> set ?rn" for c
    using sf[OF that] by (auto simp: join_rename_def)
  ultimately show ?thesis
    using assms(1) by (auto simp: distinct_map)
qed

lemma join_outer_dtype:
  assumes "join_outer L R key sfx ck = Inr j"
  shows "c \<in> set (columns L) \<Longrightarrow> get_dtype j c = get_dtype L c"
    and "c \<notin> set (columns L) \<Longrightarrow> c \<in> set (join_right_names R key ck)
           \<Longrightarrow> distinct (columns R) \<Longrightarrow> get_dtype j c = get_dtype R c"
proof -
  let ?rc = "join_right_cols R key ck"
  let ?X = "map (\<lambda>(c, t). (join_rename L sfx c, t)) ?rc"
  from assms have j: "schema j = schema L @ ?X"
    by (auto simp: join_outer_def split: if_splits)
  note J = join_outer_Inr[OF assms]
  have fstX: "map fst ?X = map (join_rename L sfx) (join_right_names R key ck)"
    by (simp add: join_right_names_def case_prod_beta comp_def)
  {
    assume "c \<in> set (columns L)"
    then obtain t where "map_of (schema L) c = Some t"
      using get_dtype_None_iff[of L c] by (auto simp: get_dtype_def)
    then show "get_dtype j c = get_dtype L c"
      by (simp add: get_dtype_def j map_add_def)
  next
    assume c: "c \<notin> set (columns L)" "c \<in> set (join_right_names R key ck)"
      and dR: "distinct (columns R)"
    from c(2) obtain t where t: "(c, t) \<in> set ?rc"
      by (auto simp: join_right_names_def)
    then have tR: "(c, t) \<in> set (schema R)"
      by (auto simp: join_right_cols_def split: if_splits)
    from t c(1) have "(c, t) \<in> set ?X"
      by (force simp: join_rename_def)
    moreover from J(5) have "distinct (map fst ?X)"
      unfolding fstX by simp
    ultimately have "map_of ?X c = Some t" by simp
    moreover from c(1) have "map_of (schema L) c = None"
      by (simp add: map_of_eq_None_iff columns_def)
    ultimately have "get_dtype j c = Some t"
      by (simp add: get_dtype_def j map_add_def)
    with get_dtype_schema[OF dR tR] show "get_dtype j c = get_dtype R c" by simp
  }
qed

lemma upsert_match_returns:
  assumes wfb: "wf_df base" and wfd: "wf_df delta"
    and kb: "key \<in> set (columns base)" and kd: "key \<in> set (columns delta)"
    and castable: "castable cv base delta key"
    and sf: "suffix_free base delta key ''_upd''"
    and cov: "canonical_covered base delta"
  shows "\<exists>out. upsert_match cv (Frame base) delta key = Inr out"
proof -
  define D where "D = cast_to_base cv base delta key"
  define ov where "ov = overlap_cols base delta key"
  define bo where "bo = filter (\<lambda>c. c \<notin> set ov) (columns base)"
  define dl where "dl = filter (\<lambda>c. c \<notin> set ov \<and> c \<noteq> key) (columns D)"
  have B: "with_key (ensure_df_from_schema (Frame base)) delta key = base"
    using kb by (simp add: with_key_id)
  note unf = upsert_match_def [of cv "Frame base" delta key, unfolded Let_def B,
      folded ov_def, folded bo_def]
  have al: "align_delta cv base delta key = Inr D"
    unfolding D_def using wfd castable by (rule align_delta_cast_to_base)
  have cD: "columns D = columns delta"
    by (simp add: D_def cast_to_base_columns)
  have db: "distinct (columns base)" and dd: "distinct (columns delta)"
    using wfb wfd by (simp_all add: wf_df_distinct)
  have rn: "join_right_names D key True = filter (\<lambda>c. c \<noteq> key) (columns delta)"
    by (simp add: join_right_names_eq cD)
  have dist: "distinct (columns base @ map (join_rename base ''_upd'') (join_right_names D key True))"
    unfolding rn using db dd sf by (rule suffix_free_distinct)
  have kdt: "get_dtype base key = get_dtype D key"
    unfolding D_def using cast_to_base_key_dtype[OF kb kd] by simp
  obtain j where j: "join_outer base D key ''_upd'' True = Inr j"
    using kb kd kdt dist by (simp add: join_outer_def cD)
  note J = join_outer_Inr[OF j]
  have ov: "set ov = {c \<in> set (columns base). c \<in> set (columns delta) \<and> c \<noteq> key}"
    by (auto simp: ov_def overlap_cols_def)
  have bo: "set bo = {c \<in> set (columns base). c \<notin> set (columns delta) \<or> c = key}"
    by (auto simp: bo_def ov)
  have dl: "set dl = {c \<in> set (columns delta). c \<notin> set (columns base)}"
    using kb by (auto simp: dl_def ov cD)
  have in_j: "c \<in> set (columns j)" if "c \<in> set (columns base)" for c
    using that by (simp add: J(4))
  have ren_j: "join_rename base ''_upd'' c \<in> set (columns j)"
    if "c \<in> set (columns delta)" "c \<noteq> key" for c
    using that by (simp add: J(4) rn)
  have upd: "c @ ''_upd'' \<in> set (columns j)" if "c \<in> set ov" for c
    using ren_j[of c] that by (auto simp: ov join_rename_def)
  have dlj: "c \<in> set (columns j)" if "c \<in> set dl" for c
    using ren_j[of c] that kb by (auto simp: dl join_rename_def)
  have miss: "filter (\<lambda>c. c \<notin> set (columns j))
            (bo @ concat (map (\<lambda>c. [c @ ''_upd'', c]) ov) @ dl) = []"
    using in_j upd dlj by (auto simp: filter_empty_conv bo ov)
  have dpre: "distinct (bo @ ov @ dl)"
    using db dd by (auto simp: bo_def ov_def dl_def cD overlap_cols_def)
  obtain pre where pre: "select_resolve j bo ov dl = Inr pre"
    unfolding select_resolve_def miss using dpre by simp
  note P = select_resolve_Inr[OF pre]
  have cpre: "set (columns pre) = set (columns base) \<union> set (columns delta)"
    using kd kb by (auto simp: P(1) bo ov dl)
  have tpre: "get_dtype pre c = Some (the (get_dtype j c))" if "c \<in> set (columns pre)" for c
    using that unfolding get_dtype_def[of pre] P(4) map_of_graph P(1) by simp
  have ty: "c \<in> set (columns pre) \<and> get_dtype pre c = Some t"
    if ct: "(c, t) \<in> set head_to_head_schema" for c t
  proof (cases "c \<in> set (columns base)")
    case True
    with cov ct have "get_dtype base c = Some t"
      by (auto simp: canonical_covered_def list_all_iff)
    with True join_outer_dtype(1)[OF j True] show ?thesis
      by (simp add: cpre tpre)
  next
    case False
    with cov ct have t: "get_dtype delta c = Some t"
      by (auto simp: canonical_covered_def list_all_iff)
    then have cd: "c \<in> set (columns delta)"
      using get_dtype_None_iff[of delta c] by auto
    from False kb have ck: "c \<noteq> key" by auto
    from False have "\<not> needs_cast base delta key c"
      using ck by (auto simp: needs_cast_def overlap_cols_def)
    then have "get_dtype D c = get_dtype delta c"
      by (simp add: D_def cast_to_base_dtype)
    moreover have "get_dtype j c = get_dtype D c"
      using join_outer_dtype(2)[OF j False] cd ck dd by (simp add: rn cD)
    ultimately show ?thesis
      using t cd by (simp add: cpre tpre)
  qed
  have sub: "set (map fst head_to_head_schema) \<subseteq> set (columns pre)"
    using ty by auto
  have tys: "\<forall>c\<in>set (map fst head_to_head_schema). get_dtype pre c = map_of head_to_head_schema c"
  proof
    fix c assume "c \<in> set (map fst head_to_head_schema)"
    then obtain t where ct: "(c, t) \<in> set head_to_head_schema" by auto
    with distinct_head_to_head have "map_of head_to_head_schema c = Some t" by simp
    with ty[OF ct] show "get_dtype pre c = map_of head_to_head_schema c" by simp
  qed
  have "distinct (columns pre)" using dpre P(1) by simp
  from ordenar_y_validar_success[OF sub tys this distinct_head_to_head]
  obtain out where out: "ordenar_y_validar pre head_to_head_schema True = Inr out" ..
  have "upsert_match cv (Frame base) delta key = Inr out"
    unfolding unf using kd by (simp add: al j pre[unfolded dl_def] out)
  then show ?thesis ..
qed

lemma cast_to_base_same_dtypes:
  assumes "wf_df delta"
    and "\<forall>c\<in>set (key # overlap_cols base delta key). get_dtype delta c = get_dtype base c"
  shows "cast_to_base cv base delta key = delta"
proof -
  from assms(2) have none: "\<not> needs_cast base delta key c" for c
    by (auto simp: needs_cast_def)
  have "schema (cast_to_base cv base delta key) = schema delta"
    by (simp add: cast_to_base_def none case_prod_beta)
  moreover have "rows (cast_to_base cv base delta key) = rows delta"
    using assms(1) by (simp add: cast_to_base_def none wf_row_id map_idI)
  ultimately show ?thesis
    by (rule df_eqI)
qed

lemma full_outer_rows_left:
  assumes "l \<in> set (rows B)"
  shows "\<exists>p\<in>set (full_outer_rows B D key). fst p = Some l"
proof (cases "list_ex (\<lambda>r. join_matches (cell_at (columns B) l key) (cell_at (columns D) r key)) (rows D)")
  case True
  then obtain r where "r \<in> set (rows D)"
    "join_matches (cell_at (columns B) l key) (cell_at (columns D) r key)"
    by (auto simp: list_ex_iff)
  with assms have "(Some l, Some r) \<in> set (full_outer_rows B D key)"
    by (auto simp: full_outer_rows_def)
  then show ?thesis by force
next
  case False
  with assms have "(Some l, None) \<in> set (full_outer_rows B D key)"
    by (auto simp: full_outer_rows_def)
  then show ?thesis by force
qed

lemma full_outer_rows_right:
  assumes "r \<in> set (rows D)"
  shows "\<exists>p\<in>set (full_outer_rows B D key). snd p = Some r"
proof (cases "list_ex (\<lambda>l. join_matches (cell_at (columns B) l key) (cell_at (columns D) r key)) (rows B)")
  case True
  then obtain l where "l \<in> set (rows B)"
    "join_matches (cell_at (columns B) l key) (cell_at (columns D) r key)"
    by (auto simp: list_ex_iff)
  with assms have "(Some l, Some r) \<in> set (full_outer_rows B D key)"
    by (auto simp: full_outer_rows_def)
  then show ?thesis by force
next
  case False
  with assms have "(None, Some r) \<in> set (full_outer_rows B D key)"
    by (auto simp: full_outer_rows_def)
  then show ?thesis by force
qed

section \<open>Validation failures\<close>

text \<open>
  C9. A table that lacks a column of the schema is rejected by \<open>ordenar_y_validar\<close> with
  the missing-columns error, which lists exactly the absent columns in schema order; no
  table is returned, whatever \<open>permitir_extras\<close> is.
\<close>

theorem ordenar_y_validar_missing_columns:
  assumes "c \<in> set (map fst esquema)" and "c \<notin> set (columns d)"
  shows "ordenar_y_validar d esquema permitir_extras =
           Inl (MissingColumns (filter (\<lambda>c. c \<notin> set (columns d)) (map fst esquema)))
         \<and> c \<in> set (filter (\<lambda>c. c \<notin> set (columns d)) (map fst esquema))"
proof -
  from assms have mem: "c \<in> set (filter (\<lambda>c. c \<notin> set (columns d)) (map fst esquema))"
    by simp
  then have "filter (\<lambda>c. c \<notin> set (columns d)) (map fst esquema) \<noteq> []"
    by (metis empty_iff empty_set)
  with mem show ?thesis
    by (simp add: ordenar_y_validar_def Let_def)
qed

theorem ordenar_y_validar_missing_columns_witness:
  "ordenar_y_validar key_only head_to_head_schema True =
     Inl (MissingColumns (filter (\<lambda>c. c \<notin> set (columns key_only)) (map fst head_to_head_schema)))
   \<and> ''BetType'' \<in> set (filter (\<lambda>c. c \<notin> set (columns key_only)) (map fst head_to_head_schema))"
  using ordenar_y_validar_missing_columns [of "''BetType''" head_to_head_schema key_only True]
  by (simp add: head_to_head_schema_def key_only_def columns_def)

section \<open>The missing key\<close>

text \<open>
  C5. A delta without the key column makes \<open>upsert_match\<close> and \<open>upsert_bets\<close> fail
  with the missing-key error (\<open>upsert_match_missing_key\<close>, \<open>upsert_bets_missing_key\<close>).
  \<open>upsert_odds\<close> tests the union of the columns of both frames, so it reports a missing key
  only when the base lacks it too (\<open>upsert_odds_missing_key_iff\<close>): merging a batch of
  odds that has no \<open>MatchId\<close> column into the empty consolidated table does not fail with
  the missing-key error, although the two other merges do on the same input.
\<close>

theorem upsert_odds_delta_without_key:
  "upsert_match no_cast (Frame empty_base) odds_without_key ''MatchId'' = Inl (MissingKey ''MatchId'')
   \<and> upsert_bets no_cast (Frame empty_base) odds_without_key ''MatchId'' = Inl (MissingKey ''MatchId'')
   \<and> upsert_odds empty_base odds_without_key ''MatchId'' ''ModifiedOn'' [] []
        \<noteq> Inl (MissingKey ''MatchId'')"
  by (simp add: upsert_match_missing_key upsert_bets_missing_key upsert_odds_missing_key_iff
        odds_without_key_def empty_base_def columns_def head_to_head_schema_def)

section \<open>Replace-Merge\<close>

lemma match_example:
  "upsert_match no_cast (Frame match_base) match_delta ''MatchId'' = Inr match_out"
  by code_simp

text \<open>
  C1, as stated, fails: a base and a delta that both have the key column do not always
  get a table. Merging the table that has only the key column into itself is rejected by
  the validation at the end of \<open>upsert_match\<close>, the 26 other canonical columns being in
  neither input.
\<close>

theorem upsert_match_key_only_rejected:
  "''MatchId'' \<in> set (columns key_only)
   \<and> upsert_match no_cast (Frame key_only) key_only ''MatchId''
       = Inl (MissingColumns (map fst (tl head_to_head_schema)))"
  by code_simp

text \<open>
  C1, amended. Let the base and the delta be well-formed frames that both have the key
  column, such that every value of the delta that has to be cast to a dtype of the base
  can be (\<open>castable\<close>), no shared column with \<open>_upd\<close> appended is a column of either
  frame (\<open>suffix_free\<close>), and the two frames together hold every canonical column with
  its declared dtype (\<open>canonical_covered\<close>). Then \<open>upsert_match\<close> returns a table. Its
  columns are those of both inputs. Its rows are, up to their order and with their
  multiplicities, the combinations of the pairs of the full outer join on the key of the
  base and the delta cast to the base's dtypes (\<open>cast_to_base\<close>, which is the delta
  itself when the dtypes agree): every base row and every row of the cast delta is in such
  a pair, and the combination takes the key, for a column of both inputs the delta's
  value when it is non-null and otherwise the base's, and the value of a column of one
  input unchanged (\<open>replace_value\<close>).
\<close>

theorem upsert_match_full_outer_join:
  assumes "wf_df base" and "wf_df delta"
    and "key \<in> set (columns base)" and "key \<in> set (columns delta)"
    and "castable cv base delta key"
    and "suffix_free base delta key ''_upd''"
    and "canonical_covered base delta"
  defines "D \<equiv> cast_to_base cv base delta key"
  shows "\<exists>out. upsert_match cv (Frame base) delta key = Inr out
           \<and> set (columns out) = set (columns base) \<union> set (columns delta)
           \<and> mset (rows out)
               = mset (map (\<lambda>p. map (replace_value base D key p) (columns out))
                        (full_outer_rows base D key))
           \<and> (\<forall>l\<in>set (rows base). \<exists>p\<in>set (full_outer_rows base D key). fst p = Some l)
           \<and> (\<forall>r\<in>set (rows D). \<exists>p\<in>set (full_outer_rows base D key). snd p = Some r)
           \<and> ((\<forall>c\<in>set (key # overlap_cols base delta key).
                   get_dtype delta c = get_dtype base c) \<longrightarrow> D = delta)"
proof -
  from upsert_match_returns [OF assms(1-7)]
  obtain out where out: "upsert_match cv (Frame base) delta key = Inr out" ..
  have B: "with_key (ensure_df_from_schema (Frame base)) delta key = base"
    using assms(3) by (simp add: with_key_id)
  have al: "align_delta cv base delta key = Inr D"
    unfolding D_def using assms(2,5) by (rule align_delta_cast_to_base)
  from upsert_match_Inr [OF out] obtain D' where
    D': "align_delta cv base delta key = Inr D'"
    and cols: "set (columns out) = set (columns base) \<union> set (columns delta)"
    and rows': "rows out = map (\<lambda>p. map (replace_value base D' key p) (columns out))
                            (join_pairs base D' key)"
    unfolding B by blast
  from D' al have "D' = D" by simp
  with rows' have rows: "rows out = map (\<lambda>p. map (replace_value base D key p) (columns out))
                            (join_pairs base D key)"
    by simp
  have "mset (rows out)
          = image_mset (\<lambda>p. map (replace_value base D key p) (columns out))
              (mset (join_pairs base D key))"
    unfolding rows by simp
  then have ms: "mset (rows out)
               = mset (map (\<lambda>p. map (replace_value base D key p) (columns out))
                        (full_outer_rows base D key))"
    by (simp add: mset_join_pairs)
  have same: "(\<forall>c\<in>set (key # overlap_cols base delta key).
                   get_dtype delta c = get_dtype base c) \<longrightarrow> D = delta"
    unfolding D_def using cast_to_base_same_dtypes [OF assms(2)] by blast
  from out cols ms same full_outer_rows_left [of _ base D key]
    full_outer_rows_right [of _ D base key]
  show ?thesis by blast
qed

theorem upsert_match_full_outer_join_witness:
  "wf_df match_base \<and> wf_df match_delta
   \<and> ''MatchId'' \<in> set (columns match_base) \<and> ''MatchId'' \<in> set (columns match_delta)
   \<and> castable no_cast match_base match_delta ''MatchId''
   \<and> suffix_free match_base match_delta ''MatchId'' ''_upd''
   \<and> canonical_covered match_base match_delta
   \<and> upsert_match no_cast (Frame match_base) match_delta ''MatchId'' = Inr match_out
   \<and> mset (rows match_out)
       = mset (map (\<lambda>p. map (replace_value match_base
                                 (cast_to_base no_cast match_base match_delta ''MatchId'')
                                 ''MatchId'' p) (columns match_out))
                (full_outer_rows match_base
                   (cast_to_base no_cast match_base match_delta ''MatchId'') ''MatchId''))"
proof -
  have 1: "wf_df match_base" by code_simp
  have 2: "wf_df match_delta" by code_simp
  have 3: "''MatchId'' \<in> set (columns match_base)" by code_simp
  have 4: "''MatchId'' \<in> set (columns match_delta)" by code_simp
  have 5: "castable no_cast match_base match_delta ''MatchId''" by code_simp
  have 6: "suffix_free match_base match_delta ''MatchId'' ''_upd''" by code_simp
  have 7: "canonical_covered match_base match_delta" by code_simp
  from upsert_match_full_outer_join [OF 1 2 3 4 5 6 7] match_example
  have "mset (rows match_out)
       = mset (map (\<lambda>p. map (replace_value match_base
                                 (cast_to_base no_cast match_base match_delta ''MatchId'')
                                 ''MatchId'' p) (columns match_out))
                (full_outer_rows match_base
                   (cast_to_base no_cast match_base match_delta ''MatchId'') ''MatchId''))"
    by auto
  with 1 2 3 4 5 6 7 match_example show ?thesis by blast
qed

section \<open>The schema of a merged table\<close>

text \<open>
  C4. A table returned by \<open>upsert_match\<close>, \<open>upsert_bets\<close> or \<open>upsert_odds\<close> has the
  canonical schema as the first part of its schema: every canonical column, with its
  declared dtype, in canonical order. The columns after it are the extra ones: none of
  them has a canonical name, and no column name occurs twice.
\<close>

theorem merges_return_canonical_schema:
  assumes "upsert_match cv base delta key = Inr out
         \<or> upsert_bets cv base delta key = Inr out
         \<or> upsert_odds df_base delta key ts_col preferir_reciente preferir_antiguo = Inr out"
  shows "\<exists>extras. schema out = head_to_head_schema @ extras
           \<and> set (map fst extras) \<inter> set (map fst head_to_head_schema) = {}
           \<and> distinct (columns out)"
  using assms upsert_match_validated upsert_bets_validated upsert_odds_validated
    validated_canonical_first by blast

theorem merges_return_canonical_schema_witness:
  "upsert_match no_cast (Frame match_base) match_delta ''MatchId'' = Inr match_out
   \<and> (\<exists>extras. schema match_out = head_to_head_schema @ extras
          \<and> set (map fst extras) \<inter> set (map fst head_to_head_schema) = {}
          \<and> distinct (columns match_out))"
  using merges_return_canonical_schema [of no_cast "Frame match_base" match_delta "''MatchId''"
      match_out match_base "''ModifiedOn''" "[]" "[]"] match_example
  by blast

section \<open>Additive-Merge: columns that are not numeric\<close>


end
